theory Spec2Isabelle
  imports Main "HOL-Library.Word" "HOL-Library.Multiset"
begin

section \<open>A link checker built on goroutines and one channel (main.go)\<close>

text \<open>
  The program keeps a fixed slice of URLs, starts one goroutine per URL that probes it
  with \<^verbatim>\<open>http.Get\<close>, and re-probes every URL it receives back over an unbuffered
  channel after a pause. The embedding has three layers:
  \<^item> the values of the Go program (channels, durations, the result of \<^verbatim>\<open>http.Get\<close>);
  \<^item> the body of each function as a tree of the effects it performs, in source order,
    branching where the source branches;
  \<^item> an interleaving semantics of the goroutines, driven by an explicit schedule.
\<close>

subsection \<open>Values\<close>

text \<open>A channel value is the identity of the channel that \<^verbatim>\<open>make\<close> allocated.\<close>

type_synonym chan = nat

text \<open>\<^verbatim>\<open>time.Duration\<close> is an \<^verbatim>\<open>int64\<close> count of nanoseconds.\<close>

type_synonym Duration = "64 word"

definition Nanosecond :: Duration where
  "Nanosecond = 1"

definition Microsecond :: Duration where
  "Microsecond = 1000 * Nanosecond"

definition Millisecond :: Duration where
  "Millisecond = 1000 * Microsecond"

definition Second :: Duration where
  "Second = 1000 * Millisecond"

text \<open>
  \<^verbatim>\<open>http.Get\<close> returns \<^verbatim>\<open>(resp *Response, err error)\<close>. Of the response only the status
  code is kept; a \<^verbatim>\<open>nil\<close> pointer or a \<^verbatim>\<open>nil\<close> error is \<open>None\<close>. The library, not
  this program, decides which pair comes back, so the pair is an input of the model.
\<close>

datatype response = Response (StatusCode: int)

type_synonym error = string

type_synonym get_result = "response option \<times> error option"

text \<open>
  \<^verbatim>\<open>fmt.Println\<close> on string operands: the operands separated by single spaces, then a
  newline.
\<close>

definition newline :: char where
  "newline = CHR 0x0A"

fun sprintln :: "string list \<Rightarrow> string" where
  "sprintln [] = [newline]"
| "sprintln [a] = a @ [newline]"
| "sprintln (a # b # rest) = a @ '' '' @ sprintln (b # rest)"

subsection \<open>Function bodies as effect trees\<close>

text \<open>
  One constructor per kind of statement the program (or the Go semantics of the
  statements it uses) needs; the last argument is what the goroutine does next.
  \<open>Done\<close> is the end of a body (or \<^verbatim>\<open>return\<close>). \<open>Range c body k\<close> is
  \<^verbatim>\<open>for l := range c { body l }\<close> followed by \<open>k\<close>. \<open>Close\<close> is not used by
  the program; it is in the language so that "the channel is never closed" says
  something.
\<close>

datatype proc =
    Done
  | Make "chan \<Rightarrow> proc"
  | Go proc proc
  | Get string "get_result \<Rightarrow> proc"
  | Println "string list" proc
  | Send chan string proc
  | Sleep Duration proc
  | Range chan "string \<Rightarrow> proc" proc
  | Close chan proc

text \<open>Sequential composition: \<open>q\<close> runs where \<open>p\<close> ends.\<close>

primrec seq :: "proc \<Rightarrow> proc \<Rightarrow> proc" where
  "seq Done q = q"
| "seq (Make k) q = Make (\<lambda>c. seq (k c) q)"
| "seq (Go p k) q = Go p (seq k q)"
| "seq (Get url k) q = Get url (\<lambda>r. seq (k r) q)"
| "seq (Println args k) q = Println args (seq k q)"
| "seq (Send c v k) q = Send c v (seq k q)"
| "seq (Sleep d k) q = Sleep d (seq k q)"
| "seq (Range c body k) q = Range c body (seq k q)"
| "seq (Close c k) q = Close c (seq k q)"

subsection \<open>The program\<close>

text \<open>Lines 38 to 48.\<close>

definition checkLink :: "string \<Rightarrow> chan \<Rightarrow> proc" where
  "checkLink link c =
     Get link (\<lambda>(resp, err).
       if err \<noteq> None then
         Println [link, ''might be down!''] (Send c link Done)
       else
         Println [link, ''is up!''] (Send c link Done))"

text \<open>
  Lines 29 to 32, the function literal; \<open>c\<close> is the variable of \<^verbatim>\<open>main\<close> that the
  literal captures and \<open>link\<close> its parameter. The call of \<open>checkLink\<close> is its last
  statement.
\<close>

definition func_lit :: "chan \<Rightarrow> string \<Rightarrow> proc" where
  "func_lit c link = Sleep (5 * Second) (checkLink link c)"

text \<open>Lines 10 to 16.\<close>

definition links :: "string list" where
  "links =
     [''http://google.com'',
      ''http://facebook.com'',
      ''http://stackoverflow.com'',
      ''http://golang.org'',
      ''http://amazon.com'']"

text \<open>Lines 20 to 22: \<^verbatim>\<open>for _, link := range links { go checkLink(link, c) }\<close>.\<close>

fun range_links :: "string list \<Rightarrow> chan \<Rightarrow> proc \<Rightarrow> proc" where
  "range_links [] c k = k"
| "range_links (link # rest) c k = Go (checkLink link c) (range_links rest c k)"

text \<open>Lines 28 to 33: \<^verbatim>\<open>for l := range c { go func(link string) {...}(l) }\<close>.\<close>

definition receive_loop :: "chan \<Rightarrow> proc" where
  "receive_loop c = Range c (\<lambda>l. Go (func_lit c l) Done) Done"

text \<open>
  Lines 9 to 36 for a slice \<open>ls\<close> of links, and \<open>main\<close> itself with the slice of the
  source.
\<close>

definition main_with :: "string list \<Rightarrow> proc" where
  "main_with ls = Make (\<lambda>c. range_links ls c (receive_loop c))"

definition main :: proc where
  "main = main_with links"

subsection \<open>One call, run on its own\<close>

text \<open>
  What a goroutine does when it runs a loop-free body to its end, every \<^verbatim>\<open>http.Get\<close>
  in it returning \<open>r\<close> and every send finding its receiver. A body that allocates a
  channel or loops has no such finite run: \<open>None\<close>.
\<close>

datatype action =
    AGo
  | AGet string
  | APrintln string
  | ASend chan string
  | ASleep Duration
  | AClose chan

primrec actions :: "proc \<Rightarrow> get_result \<Rightarrow> action list option" where
  "actions Done r = Some []"
| "actions (Make k) r = None"
| "actions (Go p k) r = map_option ((#) AGo) (actions k r)"
| "actions (Get url k) r = map_option ((#) (AGet url)) (actions (k r) r)"
| "actions (Println args k) r = map_option ((#) (APrintln (sprintln args))) (actions k r)"
| "actions (Send c v k) r = map_option ((#) (ASend c v)) (actions k r)"
| "actions (Sleep d k) r = map_option ((#) (ASleep d)) (actions k r)"
| "actions (Range c body k) r = None"
| "actions (Close c k) r = map_option ((#) (AClose c)) (actions k r)"

fun is_send :: "action \<Rightarrow> bool" where
  "is_send (ASend c v) = True"
| "is_send a = False"

fun is_println :: "action \<Rightarrow> bool" where
  "is_println (APrintln s) = True"
| "is_println a = False"

subsection \<open>Goroutines running together\<close>

text \<open>
  The state of the running program. Goroutine \<open>0\<close> of the pool is the main goroutine;
  \<^verbatim>\<open>go\<close> appends to the pool; a goroutine that has ended stays in it as \<open>Done\<close>.
  \<open>chans\<close> counts the channels allocated so far, \<open>closed\<close> lists the closed ones,
  \<open>stdout\<close> is what has been written to standard output.
\<close>

datatype status = Running | Exited | Panicked

record world =
  pool :: "proc list"
  chans :: nat
  closed :: "chan list"
  stdout :: string
  status :: status

definition start :: "proc \<Rightarrow> world" where
  "start p = \<lparr>pool = [p], chans = 0, closed = [], stdout = [], status = Running\<rparr>"

text \<open>
  What the scheduler and the network decide: \<open>Local i\<close> lets goroutine \<open>i\<close> perform
  its next statement when that statement does not wait for anybody (a pause counts as
  one step, taken when it is over); \<open>Net i r\<close> ends the pending \<^verbatim>\<open>http.Get\<close> of
  goroutine \<open>i\<close> with the result \<open>r\<close>; \<open>Sync i j\<close> hands the value that goroutine
  \<open>i\<close> is sending to goroutine \<open>j\<close>, which is receiving on the same channel (the
  channel is unbuffered, so a send waits for its receiver).
\<close>

datatype sched = Local nat | Net nat get_result | Sync nat nat

datatype event =
    EvMake nat chan
  | EvGo nat nat
  | EvGet nat string get_result
  | EvPrintln nat string
  | EvSleep nat Duration
  | EvComm nat nat chan string
  | EvClose nat chan
  | EvRangeEnd nat chan
  | EvPanic nat
  | EvExit

text \<open>
  One step. \<open>None\<close>: the choice is not enabled (the goroutine is blocked, has ended,
  or does not exist, or the program is over). The Go rules that the program never
  triggers are there as well: a range loop over a closed channel ends, a send on a
  closed channel and a second close panic, and the program exits when the main goroutine
  returns.
\<close>

fun step :: "world \<Rightarrow> sched \<Rightarrow> (event \<times> world) option" where
  "step w (Local i) =
     (if status w \<noteq> Running \<or> length (pool w) \<le> i then None
      else case pool w ! i of
        Done \<Rightarrow> if i = 0 then Some (EvExit, w\<lparr>status := Exited\<rparr>) else None
      | Make k \<Rightarrow>
          Some (EvMake i (chans w),
                w\<lparr>pool := (pool w)[i := k (chans w)], chans := Suc (chans w)\<rparr>)
      | Go p k \<Rightarrow>
          Some (EvGo i (length (pool w)), w\<lparr>pool := (pool w)[i := k] @ [p]\<rparr>)
      | Get url k \<Rightarrow> None
      | Println args k \<Rightarrow>
          Some (EvPrintln i (sprintln args),
                w\<lparr>pool := (pool w)[i := k], stdout := stdout w @ sprintln args\<rparr>)
      | Send c v k \<Rightarrow>
          if c \<in> set (closed w) then Some (EvPanic i, w\<lparr>status := Panicked\<rparr>) else None
      | Sleep d k \<Rightarrow> Some (EvSleep i d, w\<lparr>pool := (pool w)[i := k]\<rparr>)
      | Range c body k \<Rightarrow>
          if c \<in> set (closed w) then Some (EvRangeEnd i c, w\<lparr>pool := (pool w)[i := k]\<rparr>)
          else None
      | Close c k \<Rightarrow>
          if c \<in> set (closed w) then Some (EvPanic i, w\<lparr>status := Panicked\<rparr>)
          else Some (EvClose i c, w\<lparr>pool := (pool w)[i := k], closed := c # closed w\<rparr>))"
| "step w (Net i r) =
     (if status w \<noteq> Running \<or> length (pool w) \<le> i then None
      else case pool w ! i of
        Get url k \<Rightarrow> Some (EvGet i url r, w\<lparr>pool := (pool w)[i := k r]\<rparr>)
      | _ \<Rightarrow> None)"
| "step w (Sync i j) =
     (if status w \<noteq> Running \<or> length (pool w) \<le> i \<or> length (pool w) \<le> j \<or> i = j
      then None
      else case pool w ! i of
        Send c v k \<Rightarrow>
          (case pool w ! j of
             Range c' body k' \<Rightarrow>
               if c = c' \<and> c \<notin> set (closed w)
               then Some (EvComm i j c v,
                          w\<lparr>pool := (pool w)[i := k, j := seq (body v) (Range c' body k')]\<rparr>)
               else None
           | _ \<Rightarrow> None)
      | _ \<Rightarrow> None)"

text \<open>A run under a schedule: the events in order and the state reached.\<close>

fun run :: "world \<Rightarrow> sched list \<Rightarrow> (event list \<times> world) option" where
  "run w [] = Some ([], w)"
| "run w (s # ss) =
     (case step w s of
        None \<Rightarrow> None
      | Some (e, w') \<Rightarrow>
          (case run w' ss of
             None \<Rightarrow> None
           | Some (es, w'') \<Rightarrow> Some (e # es, w'')))"

subsection \<open>Invariants of the running program\<close>

text \<open>
  The targets a body still has to deal with: the URL of the probe it is about to issue
  or of the result it is about to send, and the targets of the goroutines it is about
  to start. (Which channel \<^verbatim>\<open>make\<close> returns does not change them.)
\<close>

primrec held :: "proc \<Rightarrow> string list" where
  "held Done = []"
| "held (Make k) = held (k 0)"
| "held (Go p k) = held p @ held k"
| "held (Get url k) = [url]"
| "held (Println args k) = held k"
| "held (Send c v k) = [v]"
| "held (Sleep d k) = held k"
| "held (Range c body k) = held k"
| "held (Close c k) = held k"

definition holders :: "world \<Rightarrow> string list" where
  "holders w = concat (map held (pool w))"

text \<open>
  The shapes the goroutines of \<open>main_with ls\<close> take while it runs. A child goroutine is
  pausing, probing, about to print one of the two messages, sending, or has ended; the
  main goroutine is somewhere in its first loop, or waiting in its second loop, or
  about to start the function literal for the link it has just received.
\<close>

definition child_form :: "string list \<Rightarrow> chan \<Rightarrow> proc \<Rightarrow> bool" where
  "child_form ls c p \<longleftrightarrow>
     p = Done \<or>
     (\<exists>l. l \<in> set ls \<and>
        (p = func_lit c l \<or> p = checkLink l c \<or>
         p = Println [l, ''might be down!''] (Send c l Done) \<or>
         p = Println [l, ''is up!''] (Send c l Done) \<or>
         p = Send c l Done))"

definition main_form :: "string list \<Rightarrow> chan \<Rightarrow> proc \<Rightarrow> bool" where
  "main_form ls c p \<longleftrightarrow>
     (\<exists>rest. set rest \<subseteq> set ls \<and> p = range_links rest c (receive_loop c)) \<or>
     (\<exists>l. l \<in> set ls \<and> p = Go (func_lit c l) (receive_loop c))"

definition shape :: "string list \<Rightarrow> world \<Rightarrow> bool" where
  "shape ls w \<longleftrightarrow>
     status w = Running \<and> closed w = [] \<and>
     (\<exists>m cs. pool w = m # cs \<and>
        (m = main_with ls \<and> cs = [] \<and> chans w = 0 \<or>
         chans w = 1 \<and> main_form ls 0 m \<and> list_all (child_form ls 0) cs))"

text \<open>
  The events such a run can show: only the main goroutine allocates and starts
  goroutines, probes and sends are for configured links, every pause is the same, and
  nothing closes a channel, leaves a range loop, panics or exits.
\<close>

fun good_event :: "string list \<Rightarrow> event \<Rightarrow> bool" where
  "good_event ls (EvMake i c) = (i = 0 \<and> c = 0)"
| "good_event ls (EvGo i n) = (i = 0)"
| "good_event ls (EvGet i url r) = (0 < i \<and> url \<in> set ls)"
| "good_event ls (EvPrintln i s) = (0 < i)"
| "good_event ls (EvSleep i d) = (0 < i \<and> d = 5 * Second)"
| "good_event ls (EvComm i j c v) = (0 < i \<and> j = 0 \<and> c = 0 \<and> v \<in> set ls)"
| "good_event ls (EvClose i c) = False"
| "good_event ls (EvRangeEnd i c) = False"
| "good_event ls (EvPanic i) = False"
| "good_event ls EvExit = False"

text \<open>Events that close a channel, and events after which a goroutine or the program
  has left its loop.\<close>

fun is_close :: "event \<Rightarrow> bool" where
  "is_close (EvClose i c) = True"
| "is_close e = False"

fun leaves :: "event \<Rightarrow> bool" where
  "leaves (EvRangeEnd i c) = True"
| "leaves (EvPanic i) = True"
| "leaves EvExit = True"
| "leaves e = False"

subsection \<open>Pending probes and pending pauses\<close>

text \<open>
  A goroutine has a probe pending when the next thing it does is the call of
  \<^verbatim>\<open>http.Get\<close> (line 39), and a pause pending when the next thing it does is the call
  of \<^verbatim>\<open>time.Sleep\<close> (line 30); the pause is for the link that is checked after it.
  Between the two a goroutine prints and sends, and the main goroutine receives and
  starts the function literal.
\<close>

fun probes :: "proc \<Rightarrow> string list" where
  "probes (Get url k) = [url]"
| "probes p = []"

fun pauses :: "proc \<Rightarrow> string list" where
  "pauses (Sleep d k) = held k"
| "pauses p = []"

definition probing :: "world \<Rightarrow> string list" where
  "probing w = concat (map probes (pool w))"

definition pausing :: "world \<Rightarrow> string list" where
  "pausing w = concat (map pauses (pool w))"

subsection \<open>What the events so far say about a state\<close>

text \<open>
  The links whose first goroutine the main goroutine has not started yet.
\<close>

primrec unstarted :: "proc \<Rightarrow> string list" where
  "unstarted Done = []"
| "unstarted (Make k) = unstarted (k 0)"
| "unstarted (Go p k) = probes p @ unstarted k"
| "unstarted (Get url k) = []"
| "unstarted (Println args k) = []"
| "unstarted (Send c v k) = []"
| "unstarted (Sleep d k) = []"
| "unstarted (Range c body k) = []"
| "unstarted (Close c k) = []"

text \<open>
  Three things the events \<open>es\<close> of a run can say about a link \<open>l\<close> and a goroutine \<open>j\<close>:
  \<open>l\<close> has not been probed at all; after every probe of \<open>l\<close> the main goroutine has
  started \<open>j\<close>; after every probe of \<open>l\<close> the main goroutine has started \<open>j\<close> and \<open>j\<close> has
  then called \<^verbatim>\<open>time.Sleep(5 * time.Second)\<close>.
\<close>

definition fresh :: "event list \<Rightarrow> string \<Rightarrow> bool" where
  "fresh es l \<longleftrightarrow> (\<forall>i r. EvGet i l r \<notin> set es)"

definition started :: "event list \<Rightarrow> string \<Rightarrow> nat \<Rightarrow> bool" where
  "started es l j \<longleftrightarrow>
     (\<forall>es1 i r es2. es = es1 @ EvGet i l r # es2 \<longrightarrow> EvGo 0 j \<in> set es2)"

definition settled :: "event list \<Rightarrow> string \<Rightarrow> nat \<Rightarrow> bool" where
  "settled es l j \<longleftrightarrow>
     (\<forall>es1 i r es2. es = es1 @ EvGet i l r # es2 \<longrightarrow>
        (\<exists>a b c. es2 = a @ EvGo 0 j # b @ EvSleep j (5 * Second) # c))"

text \<open>
  How the events of a run and the state it reaches fit together: a goroutine about to
  probe a link has been started and has paused since every earlier probe of that link,
  a goroutine about to pause has been started since every earlier probe of its link,
  and a link that still waits for its first goroutine has never been probed.
\<close>

definition history :: "event list \<Rightarrow> world \<Rightarrow> bool" where
  "history es w \<longleftrightarrow>
     (\<forall>j l. 0 < j \<and> j < length (pool w) \<and> pool w ! j = checkLink l 0 \<longrightarrow> settled es l j) \<and>
     (\<forall>j l. 0 < j \<and> j < length (pool w) \<and> pool w ! j = func_lit 0 l \<longrightarrow> started es l j) \<and>
     (\<forall>l. l \<in> set (unstarted (pool w ! 0)) \<longrightarrow> fresh es l)"

subsection \<open>The runtime's deadlock check\<close>

text \<open>
  The schedule entries that matter in a state: a local step or the return of
  \<^verbatim>\<open>http.Get\<close> for each goroutine, and a rendezvous for each pair. (Whether
  \<^verbatim>\<open>http.Get\<close> can return does not depend on what it returns.)
\<close>

definition choices :: "world \<Rightarrow> sched list" where
  "choices w =
     (let is = [0..<length (pool w)]
      in map Local is @ map (\<lambda>i. Net i (None, None)) is @
         concat (map (\<lambda>i. map (Sync i) is) is))"

text \<open>
  All goroutines are asleep when the program is running and none of them can take a
  step: each is blocked on a channel operation that no other goroutine can complete.
\<close>

definition all_asleep :: "world \<Rightarrow> bool" where
  "all_asleep w \<longleftrightarrow> status w = Running \<and> list_all (\<lambda>s. step w s = None) (choices w)"

text \<open>
  The Go runtime does not let such a process wait: it ends it with the message below
  on standard error, the message that the notes of the source quote for a main
  goroutine blocked on a channel (lines 233 and 234). The check is made by the
  scheduler and is not in force in every build of a program (a build linked with cgo,
  as a program importing \<^verbatim>\<open>net/http\<close> is by default where cgo is available, can have
  threads that the check counts as running); the source does not fix the build, so
  whether the check is in force is a parameter.
\<close>

definition deadlock_report :: "bool \<Rightarrow> world \<Rightarrow> string option" where
  "deadlock_report detector w =
     (if detector \<and> all_asleep w
      then Some ''fatal error: all goroutines are asleep - deadlock!''
      else None)"

section \<open>Properties\<close>

subsection \<open>What is kept between steps\<close>

lemma held_checkLink [simp]: "held (checkLink l c) = [l]"
  by (simp add: checkLink_def)

lemma held_func_lit [simp]: "held (func_lit c l) = [l]"
  by (simp add: func_lit_def)

lemma held_receive_loop [simp]: "held (receive_loop c) = []"
  by (simp add: receive_loop_def)

lemma held_range_links [simp]: "held (range_links rest c k) = rest @ held k"
  by (induction rest) simp_all

lemma held_update:
  "i < length xs \<Longrightarrow>
     mset (concat (map held (xs[i := x]))) + mset (held (xs ! i)) =
     mset (concat (map held xs)) + mset (held x)"
  by (induction xs arbitrary: i) (auto split: nat.splits)

lemma held_update_same:
  "i < length xs \<Longrightarrow> held x = held (xs ! i) \<Longrightarrow>
     mset (concat (map held (xs[i := x]))) = mset (concat (map held xs))"
  using held_update [of i xs x] by simp

lemma list_all_update:
  "list_all P xs \<Longrightarrow> P x \<Longrightarrow> list_all P (xs[i := x])"
  by (induction xs arbitrary: i) (auto split: nat.splits)

lemma list_all_nth: "list_all P xs \<Longrightarrow> i < length xs \<Longrightarrow> P (xs ! i)"
  by (simp add: list_all_length)

lemma main_form_cases:
  assumes "main_form ls c m"
  obtains (loop) "m = receive_loop c"
  | (spawn) l rest where "l \<in> set ls" "set rest \<subseteq> set ls" "m = Go (checkLink l c) (range_links rest c (receive_loop c))"
  | (relaunch) l where "l \<in> set ls" "m = Go (func_lit c l) (receive_loop c)"
proof -
  from assms consider rest where "set rest \<subseteq> set ls" "m = range_links rest c (receive_loop c)"
    | l where "l \<in> set ls" "m = Go (func_lit c l) (receive_loop c)"
    unfolding main_form_def by blast
  then show thesis
  proof cases
    case 1
    then show ?thesis
      by (cases rest) (auto intro: loop spawn)
  next
    case 2
    then show ?thesis by (rule relaunch)
  qed
qed

lemma main_form_loop: "main_form ls c (receive_loop c)"
  unfolding main_form_def by (rule disjI1, rule exI [of _ "[]"]) simp

lemma main_form_range: "set rest \<subseteq> set ls \<Longrightarrow> main_form ls c (range_links rest c (receive_loop c))"
  unfolding main_form_def by blast

lemma main_form_relaunch: "l \<in> set ls \<Longrightarrow> main_form ls c (Go (func_lit c l) (receive_loop c))"
  unfolding main_form_def by blast

lemma step_main_local:
  assumes "status w = Running" "closed w = []" "pool w = m # cs" "chans w = 1" "main_form ls 0 m"
    "list_all (child_form ls 0) cs" "step w (Local 0) = Some (e, w')"
  shows "shape ls w' \<and> good_event ls e \<and> mset (holders w') = mset (holders w)"
  using assms(5)
proof (cases rule: main_form_cases)
  case loop
  with assms show ?thesis by (simp add: receive_loop_def)
next
  case (spawn l rest)
  with assms show ?thesis
    by (auto simp: shape_def main_form_range child_form_def holders_def)
next
  case (relaunch l)
  with assms show ?thesis
    by (auto simp: shape_def main_form_loop child_form_def holders_def)
qed

lemma child_form_Done: "child_form ls c Done"
  by (simp add: child_form_def)

lemma step_child_local:
  assumes "status w = Running" "closed w = []" "pool w = m # cs" "chans w = 1" "main_form ls 0 m"
    "list_all (child_form ls 0) cs" "step w (Local (Suc i)) = Some (e, w')"
  shows "shape ls w' \<and> good_event ls e \<and> mset (holders w') = mset (holders w)"
proof -
  from assms(3,7) have i: "i < length cs"
    by (auto split: if_splits)
  with assms(6) have "child_form ls 0 (cs ! i)"
    by (rule list_all_nth)
  then consider "cs ! i = Done"
    | l where "l \<in> set ls" "cs ! i = func_lit 0 l"
    | l where "l \<in> set ls" "cs ! i = checkLink l 0"
    | l where "l \<in> set ls" "cs ! i = Println [l, ''might be down!''] (Send 0 l Done)"
    | l where "l \<in> set ls" "cs ! i = Println [l, ''is up!''] (Send 0 l Done)"
    | l where "l \<in> set ls" "cs ! i = Send 0 l Done"
    unfolding child_form_def by blast
  then show ?thesis
  proof cases
    case 1
    with assms i show ?thesis by simp
  next
    case 2
    have "child_form ls 0 (checkLink l 0)"
      using 2(1) by (auto simp: child_form_def)
    with 2 assms i show ?thesis
      by (auto simp: shape_def func_lit_def list_all_update holders_def held_update_same)
  next
    case 3
    with assms i show ?thesis by (simp add: checkLink_def)
  next
    case 4
    have "child_form ls 0 (Send 0 l Done)"
      using 4(1) by (auto simp: child_form_def)
    with 4 assms i show ?thesis
      by (auto simp: shape_def list_all_update holders_def held_update_same)
  next
    case 5
    have "child_form ls 0 (Send 0 l Done)"
      using 5(1) by (auto simp: child_form_def)
    with 5 assms i show ?thesis
      by (auto simp: shape_def list_all_update holders_def held_update_same)
  next
    case 6
    with assms i show ?thesis by simp
  qed
qed

lemma step_net:
  assumes "status w = Running" "closed w = []" "pool w = m # cs" "chans w = 1" "main_form ls 0 m"
    "list_all (child_form ls 0) cs" "step w (Net i r) = Some (e, w')"
  shows "shape ls w' \<and> good_event ls e \<and> mset (holders w') = mset (holders w)"
proof (cases i)
  case 0
  from assms(5) show ?thesis
  proof (cases rule: main_form_cases)
    case loop
    with assms 0 show ?thesis by (simp add: receive_loop_def)
  next
    case (spawn l rest)
    with assms 0 show ?thesis by simp
  next
    case (relaunch l)
    with assms 0 show ?thesis by simp
  qed
next
  case (Suc j)
  from assms(3,7) Suc have j: "j < length cs"
    by (auto split: if_splits)
  with assms(6) have "child_form ls 0 (cs ! j)"
    by (rule list_all_nth)
  then consider "cs ! j = Done"
    | l where "l \<in> set ls" "cs ! j = func_lit 0 l"
    | l where "l \<in> set ls" "cs ! j = checkLink l 0"
    | l where "l \<in> set ls" "cs ! j = Println [l, ''might be down!''] (Send 0 l Done)"
    | l where "l \<in> set ls" "cs ! j = Println [l, ''is up!''] (Send 0 l Done)"
    | l where "l \<in> set ls" "cs ! j = Send 0 l Done"
    unfolding child_form_def by blast
  then show ?thesis
  proof cases
    case 3
    have "child_form ls 0 (Println [l, ''might be down!''] (Send 0 l Done))"
      "child_form ls 0 (Println [l, ''is up!''] (Send 0 l Done))"
      using 3(1) by (auto simp: child_form_def)
    with 3 assms j Suc show ?thesis
      by (cases r) (auto simp: shape_def checkLink_def list_all_update holders_def held_update_same)
  qed (use assms j Suc in \<open>simp_all add: func_lit_def\<close>)
qed

lemma child_form_cases:
  assumes "child_form ls c p"
  obtains (ended) "p = Done"
  | (pausing) l where "l \<in> set ls" "p = func_lit c l"
  | (probing) l where "l \<in> set ls" "p = checkLink l c"
  | (down) l where "l \<in> set ls" "p = Println [l, ''might be down!''] (Send c l Done)"
  | (up) l where "l \<in> set ls" "p = Println [l, ''is up!''] (Send c l Done)"
  | (sending) l where "l \<in> set ls" "p = Send c l Done"
  using assms unfolding child_form_def by blast

lemma child_not_Range: "child_form ls c p \<Longrightarrow> p \<noteq> Range c' body k"
  by (auto simp: child_form_def func_lit_def checkLink_def)

lemma step_sync:
  assumes "status w = Running" "closed w = []" "pool w = m # cs" "chans w = 1" "main_form ls 0 m"
    "list_all (child_form ls 0) cs" "step w (Sync i j) = Some (e, w')"
  shows "shape ls w' \<and> good_event ls e \<and> mset (holders w') = mset (holders w)"
proof -
  from assms(7) have ij: "i < length (pool w)" "j < length (pool w)" "i \<noteq> j"
    by (auto split: if_splits)
  from assms(7) ij assms(1) obtain c v k body k' where
    snd: "pool w ! i = Send c v k" and rcv: "pool w ! j = Range c body k'"
    by (auto split: proc.splits if_splits)
  have j0: "j = 0"
  proof (rule ccontr)
    assume "j \<noteq> 0"
    then obtain j' where j': "j = Suc j'" by (cases j) auto
    with ij assms(3) assms(6) have "child_form ls 0 (cs ! j')"
      by (simp add: list_all_nth)
    with rcv j' assms(3) show False
      by (simp add: child_not_Range)
  qed
  with ij obtain i' where i': "i = Suc i'" by (cases i) auto
  with ij assms(3) have i'len: "i' < length cs" by simp
  with assms(6) have cf: "child_form ls 0 (cs ! i')"
    by (rule list_all_nth)
  from snd i' assms(3) have sndc: "cs ! i' = Send c v k" by simp
  from cf sndc have l: "v \<in> set ls" "c = 0" "k = Done"
    by (auto elim!: child_form_cases simp: func_lit_def checkLink_def)
  from rcv j0 assms(3) have "m = Range c body k'" by simp
  with assms(5) have m: "m = receive_loop 0" "body = (\<lambda>l. Go (func_lit 0 l) Done)" "k' = Done"
    by (auto elim!: main_form_cases simp: receive_loop_def l)
  from held_update [OF i'len, of Done] sndc l
  have "mset (concat (map held (cs[i' := Done]))) + {#v#} = mset (concat (map held cs))"
    by simp
  then have "add_mset v (mset (concat (map held (cs[i' := Done])))) = mset (concat (map held cs))"
    by simp
  with assms i' j0 sndc l m i'len show ?thesis
    by (auto simp: shape_def receive_loop_def child_form_Done list_all_update
        main_form_relaunch [unfolded receive_loop_def] holders_def)
qed

lemma step_shape:
  assumes "shape ls w" "step w s = Some (e, w')"
  shows "shape ls w' \<and> good_event ls e \<and> mset (holders w') = mset (holders w)"
proof -
  from assms(1) obtain m cs where
    base: "status w = Running" "closed w = []" "pool w = m # cs" and
    alt: "m = main_with ls \<and> cs = [] \<and> chans w = 0 \<or>
          chans w = 1 \<and> main_form ls 0 m \<and> list_all (child_form ls 0) cs"
    unfolding shape_def by blast
  from alt show ?thesis
  proof
    assume first: "m = main_with ls \<and> cs = [] \<and> chans w = 0"
    have idx: "\<not> Suc 0 \<le> i \<Longrightarrow> i = 0" for i by simp
    from first base assms(2) show ?thesis
      by (cases s)
        (auto simp: main_with_def shape_def main_form_range holders_def dest!: idx
          split: if_splits)
  next
    assume later: "chans w = 1 \<and> main_form ls 0 m \<and> list_all (child_form ls 0) cs"
    then have ch: "chans w = 1" and mf: "main_form ls 0 m"
      and cf: "list_all (child_form ls 0) cs"
      by simp_all
    show ?thesis
    proof (cases s)
      case (Local i)
      show ?thesis
      proof (cases i)
        case 0
        from assms(2) have "step w (Local 0) = Some (e, w')"
          unfolding Local 0 .
        with base ch mf cf show ?thesis
          by (rule step_main_local)
      next
        case (Suc i')
        from assms(2) have "step w (Local (Suc i')) = Some (e, w')"
          unfolding Local Suc .
        with base ch mf cf show ?thesis
          by (rule step_child_local)
      qed
    next
      case (Net i r)
      from assms(2) have "step w (Net i r) = Some (e, w')"
        unfolding Net .
      with base ch mf cf show ?thesis
        by (rule step_net)
    next
      case (Sync i j)
      from assms(2) have "step w (Sync i j) = Some (e, w')"
        unfolding Sync .
      with base ch mf cf show ?thesis
        by (rule step_sync)
    qed
  qed
qed

lemma shape_start: "shape ls (start (main_with ls))"
  by (simp add: shape_def start_def)

lemma run_shape:
  "shape ls w \<Longrightarrow> run w ss = Some (es, w') \<Longrightarrow>
     shape ls w' \<and> list_all (good_event ls) es \<and> mset (holders w') = mset (holders w)"
proof (induction ss arbitrary: w es)
  case Nil
  then show ?case by simp
next
  case (Cons s ss)
  from Cons.prems(2) obtain e w1 es1 where
    st: "step w s = Some (e, w1)" and rest: "run w1 ss = Some (es1, w')" and es: "es = e # es1"
    by (auto split: option.splits prod.splits)
  from Cons.prems(1) st have "shape ls w1 \<and> good_event ls e \<and> mset (holders w1) = mset (holders w)"
    by (rule step_shape)
  with Cons.IH [OF _ rest] es show ?case by simp
qed

subsection \<open>Runs under particular schedules\<close>

lemma run_append:
  "run w (ss @ ts) =
     (case run w ss of
        None \<Rightarrow> None
      | Some (es, w') \<Rightarrow>
          (case run w' ts of None \<Rightarrow> None | Some (fs, w'') \<Rightarrow> Some (es @ fs, w'')))"
  by (induction ss arbitrary: w) (auto split: option.splits)

lemma run_range_links:
  "status w = Running \<Longrightarrow> pool w = range_links rest c k # cs \<Longrightarrow>
     run w (replicate (length rest) (Local 0)) =
       Some (map (\<lambda>n. EvGo 0 (Suc (length cs) + n)) [0..<length rest],
             w\<lparr>pool := k # cs @ map (\<lambda>l. checkLink l c) rest\<rparr>)"
proof (induction rest arbitrary: w cs)
  case Nil
  then show ?case by (cases w) simp
next
  case (Cons l rest)
  let ?w1 = "w\<lparr>pool := range_links rest c k # cs @ [checkLink l c]\<rparr>"
  from Cons.prems have st: "step w (Local 0) = Some (EvGo 0 (Suc (length cs)), ?w1)"
    by simp
  have "status ?w1 = Running" "pool ?w1 = range_links rest c k # (cs @ [checkLink l c])"
    using Cons.prems by simp_all
  from Cons.IH [OF this]
  have tail: "run ?w1 (replicate (length rest) (Local 0)) =
      Some (map (\<lambda>n. EvGo 0 (Suc (length cs) + Suc n)) [0..<length rest],
            w\<lparr>pool := k # cs @ map (\<lambda>l. checkLink l c) (l # rest)\<rparr>)"
    by simp
  have "run w (Local 0 # replicate (length rest) (Local 0)) =
      Some (EvGo 0 (Suc (length cs)) #
              map (\<lambda>n. EvGo 0 (Suc (length cs) + Suc n)) [0..<length rest],
            w\<lparr>pool := k # cs @ map (\<lambda>l. checkLink l c) (l # rest)\<rparr>)"
    by (simp only: run.simps st tail option.case prod.case)
  then show ?case
    by (simp add: map_upt_Suc del: upt_Suc step.simps run.simps)
qed

lemma startup:
  "run (start (main_with ls)) (replicate (Suc (length ls)) (Local 0)) =
       Some (EvMake 0 0 # map (\<lambda>n. EvGo 0 (Suc n)) [0..<length ls],
             \<lparr>pool = receive_loop 0 # map (\<lambda>l. checkLink l 0) ls, chans = 1, closed = [],
              stdout = [], status = Running\<rparr>)"
proof -
  let ?w1 = "\<lparr>pool = [range_links ls 0 (receive_loop 0)], chans = 1, closed = [],
              stdout = [], status = Running\<rparr>"
  have st: "step (start (main_with ls)) (Local 0) = Some (EvMake 0 0, ?w1)"
    by (simp add: start_def main_with_def)
  have tail: "run ?w1 (replicate (length ls) (Local 0)) =
       Some (map (\<lambda>n. EvGo 0 (Suc n)) [0..<length ls],
             \<lparr>pool = receive_loop 0 # map (\<lambda>l. checkLink l 0) ls, chans = 1, closed = [],
              stdout = [], status = Running\<rparr>)"
    using run_range_links [of ?w1 ls 0 "receive_loop 0" "[]"] by simp
  show ?thesis
    by (simp only: replicate_Suc run.simps st tail option.case prod.case)
qed

lemma loop_round:
  assumes "status w = Running" "c \<notin> set (closed w)" "pool w ! 0 = receive_loop c"
    "0 < i" "i < length (pool w)" "pool w ! i = Send c v k"
  shows "run w [Sync i 0, Local 0, Local (length (pool w))] =
       Some ([EvComm i 0 c v, EvGo 0 (length (pool w)), EvSleep (length (pool w)) (5 * Second)],
             w\<lparr>pool := (pool w)[i := k] @ [checkLink v c]\<rparr>)"
    and "step w (Local 0) = None" and "step w (Net 0 r) = None"
proof -
  from assms(4,5) have ne: "pool w \<noteq> []" by auto
  with assms show "run w [Sync i 0, Local 0, Local (length (pool w))] =
       Some ([EvComm i 0 c v, EvGo 0 (length (pool w)), EvSleep (length (pool w)) (5 * Second)],
             w\<lparr>pool := (pool w)[i := k] @ [checkLink v c]\<rparr>)"
    by (simp add: receive_loop_def func_lit_def nth_append list_update_append
      list_update_swap [of 0 i] list_update_same_conv [THEN iffD2])
  from assms ne show "step w (Local 0) = None" "step w (Net 0 r) = None"
    by (simp_all add: receive_loop_def)
qed

lemma ended_is_stuck:
  assumes "pool w ! i = Done" "0 < i"
  shows "step w (Local i) = None" "step w (Net i r) = None"
    "step w (Sync i j) = None" "step w (Sync j i) = None"
  using assms by (auto split: proc.splits)

lemma check_round:
  assumes "status w = Running" "c \<notin> set (closed w)" "pool w ! 0 = receive_loop c"
    "0 < i" "i < length (pool w)" "pool w ! i = checkLink link c"
  shows "run w [Net i (resp, err), Local i, Sync i 0, Local 0, Local (length (pool w))] =
       Some ([EvGet i link (resp, err),
              EvPrintln i (link @ (if err = None then '' is up!'' else '' might be down!'') @
                [newline]),
              EvComm i 0 c link, EvGo 0 (length (pool w)),
              EvSleep (length (pool w)) (5 * Second)],
             w\<lparr>pool := (pool w)[i := Done] @ [checkLink link c],
                stdout := stdout w @ link @
                  (if err = None then '' is up!'' else '' might be down!'') @ [newline]\<rparr>)"
proof -
  let ?line = "link @ (if err = None then '' is up!'' else '' might be down!'') @ [newline]"
  let ?w2 = "w\<lparr>pool := (pool w)[i := Send c link Done], stdout := stdout w @ ?line\<rparr>"
  from assms have first: "run w [Net i (resp, err), Local i] =
      Some ([EvGet i link (resp, err), EvPrintln i ?line], ?w2)"
    by (simp add: checkLink_def)
  from assms have "status ?w2 = Running" "c \<notin> set (closed ?w2)"
    "pool ?w2 ! 0 = receive_loop c" "0 < i" "i < length (pool ?w2)"
    "pool ?w2 ! i = Send c link Done"
    by simp_all
  from loop_round(1) [OF this]
  have second: "run ?w2 [Sync i 0, Local 0, Local (length (pool w))] =
      Some ([EvComm i 0 c link, EvGo 0 (length (pool w)),
             EvSleep (length (pool w)) (5 * Second)],
            w\<lparr>pool := (pool w)[i := Done] @ [checkLink link c],
               stdout := stdout w @ ?line\<rparr>)"
    by simp
  have "run w ([Net i (resp, err), Local i] @ [Sync i 0, Local 0, Local (length (pool w))]) =
      Some ([EvGet i link (resp, err), EvPrintln i ?line] @
            [EvComm i 0 c link, EvGo 0 (length (pool w)),
             EvSleep (length (pool w)) (5 * Second)],
            w\<lparr>pool := (pool w)[i := Done] @ [checkLink link c],
               stdout := stdout w @ ?line\<rparr>)"
    by (simp only: run_append first second option.case prod.case)
  then show ?thesis by simp
qed

lemma good_event_pause:
  "list_all (good_event ls) es \<Longrightarrow> EvSleep i d \<in> set es \<Longrightarrow> d = 5 * Second"
  by (induction es) auto

lemma list_all_mem: "list_all P xs \<Longrightarrow> x \<in> set xs \<Longrightarrow> P x"
  by (simp add: list_all_iff)

lemma first_round:
  "run (start (main_with (l # rest)))
     (replicate (Suc (Suc (length rest))) (Local 0) @
      [Net 1 (resp, err), Local 1, Sync 1 0, Local 0, Local (Suc (Suc (length rest)))]) =
   Some ((EvMake 0 0 # map (\<lambda>n. EvGo 0 (Suc n)) [0..<Suc (length rest)]) @
         [EvGet 1 l (resp, err),
          EvPrintln 1 (l @ (if err = None then '' is up!'' else '' might be down!'') @
            [newline]),
          EvComm 1 0 0 l, EvGo 0 (Suc (Suc (length rest))),
          EvSleep (Suc (Suc (length rest))) (5 * Second)],
         \<lparr>pool = receive_loop 0 # Done # map (\<lambda>l. checkLink l 0) rest @ [checkLink l 0],
          chans = 1, closed = [],
          stdout = l @ (if err = None then '' is up!'' else '' might be down!'') @ [newline],
          status = Running\<rparr>)"
proof -
  let ?w = "\<lparr>pool = receive_loop 0 # map (\<lambda>l. checkLink l 0) (l # rest), chans = 1,
             closed = [], stdout = [], status = Running\<rparr>"
  have up: "run (start (main_with (l # rest))) (replicate (Suc (Suc (length rest))) (Local 0)) =
      Some (EvMake 0 0 # map (\<lambda>n. EvGo 0 (Suc n)) [0..<Suc (length rest)], ?w)"
    using startup [of "l # rest"] by (simp del: run.simps step.simps upt_Suc replicate.simps)
  have "run ?w [Net 1 (resp, err), Local 1, Sync 1 0, Local 0, Local (length (pool ?w))] =
       Some ([EvGet 1 l (resp, err),
              EvPrintln 1 (l @ (if err = None then '' is up!'' else '' might be down!'') @
                [newline]),
              EvComm 1 0 0 l, EvGo 0 (length (pool ?w)),
              EvSleep (length (pool ?w)) (5 * Second)],
             ?w\<lparr>pool := (pool ?w)[1 := Done] @ [checkLink l 0],
                stdout := stdout ?w @ l @
                  (if err = None then '' is up!'' else '' might be down!'') @ [newline]\<rparr>)"
    by (rule check_round) simp_all
  then have round: "run ?w [Net 1 (resp, err), Local 1, Sync 1 0, Local 0,
        Local (Suc (Suc (length rest)))] =
       Some ([EvGet 1 l (resp, err),
          EvPrintln 1 (l @ (if err = None then '' is up!'' else '' might be down!'') @
            [newline]),
          EvComm 1 0 0 l, EvGo 0 (Suc (Suc (length rest))),
          EvSleep (Suc (Suc (length rest))) (5 * Second)],
         \<lparr>pool = receive_loop 0 # Done # map (\<lambda>l. checkLink l 0) rest @ [checkLink l 0],
          chans = 1, closed = [],
          stdout = l @ (if err = None then '' is up!'' else '' might be down!'') @ [newline],
          status = Running\<rparr>)"
    by (simp del: run.simps step.simps)
  show ?thesis
    by (simp only: run_append up round option.case prod.case)
qed

lemma main_first_round:
  "run (start main)
     (replicate 6 (Local 0) @ [Net 1 (None, Some e), Local 1, Sync 1 0, Local 0, Local 6]) =
   Some ([EvMake 0 0, EvGo 0 1, EvGo 0 2, EvGo 0 3, EvGo 0 4, EvGo 0 5,
          EvGet 1 ''http://google.com'' (None, Some e),
          EvPrintln 1 (''http://google.com might be down!'' @ [newline]),
          EvComm 1 0 0 ''http://google.com'', EvGo 0 6, EvSleep 6 (5 * Second)],
         \<lparr>pool = [receive_loop 0, Done, checkLink ''http://facebook.com'' 0,
                  checkLink ''http://stackoverflow.com'' 0, checkLink ''http://golang.org'' 0,
                  checkLink ''http://amazon.com'' 0, checkLink ''http://google.com'' 0],
          chans = 1, closed = [],
          stdout = ''http://google.com might be down!'' @ [newline], status = Running\<rparr>)"
proof -
  let ?rest = "[''http://facebook.com'', ''http://stackoverflow.com'', ''http://golang.org'',
      ''http://amazon.com'']"
  note fr = first_round [of "''http://google.com''" ?rest None "Some e"]
  have m: "main_with (''http://google.com'' # ?rest) = main"
    by (simp add: main_def links_def)
  have sched: "replicate (Suc (Suc (length ?rest))) (Local 0) @
      [Net 1 (None, Some e), Local 1, Sync 1 0, Local 0, Local (Suc (Suc (length ?rest)))] =
      replicate 6 (Local 0) @ [Net 1 (None, Some e), Local 1, Sync 1 0, Local 0, Local 6]"
    by (simp add: numeral_eq_Suc)
  have evs: "(EvMake 0 0 # map (\<lambda>n. EvGo 0 (Suc n)) [0..<Suc (length ?rest)]) @
      [EvGet 1 ''http://google.com'' (None, Some e),
       EvPrintln 1 (''http://google.com'' @
         (if Some e = None then '' is up!'' else '' might be down!'') @ [newline]),
       EvComm 1 0 0 ''http://google.com'', EvGo 0 (Suc (Suc (length ?rest))),
       EvSleep (Suc (Suc (length ?rest))) (5 * Second)] =
      [EvMake 0 0, EvGo 0 1, EvGo 0 2, EvGo 0 3, EvGo 0 4, EvGo 0 5,
       EvGet 1 ''http://google.com'' (None, Some e),
       EvPrintln 1 (''http://google.com might be down!'' @ [newline]),
       EvComm 1 0 0 ''http://google.com'', EvGo 0 6, EvSleep 6 (5 * Second)]"
    by (simp add: upt_rec)
  have wd: "\<lparr>pool = receive_loop 0 # Done # map (\<lambda>l. checkLink l 0) ?rest @
               [checkLink ''http://google.com'' 0],
             chans = 1, closed = [],
             stdout = ''http://google.com'' @
               (if Some e = None then '' is up!'' else '' might be down!'') @ [newline],
             status = Running\<rparr> =
      \<lparr>pool = [receive_loop 0, Done, checkLink ''http://facebook.com'' 0,
              checkLink ''http://stackoverflow.com'' 0, checkLink ''http://golang.org'' 0,
              checkLink ''http://amazon.com'' 0, checkLink ''http://google.com'' 0],
       chans = 1, closed = [],
       stdout = ''http://google.com might be down!'' @ [newline], status = Running\<rparr>"
    by simp
  from fr show ?thesis
    unfolding m sched evs wd .
qed

lemma run_main:
  assumes "run (start main) ss = Some (es, w)"
  shows "shape links w" "list_all (good_event links) es" "mset (holders w) = mset links"
proof -
  have "holders (start main) = links"
    by (simp add: holders_def start_def main_def main_with_def)
  with run_shape [OF shape_start, of links ss es w] assms
  show "shape links w" "list_all (good_event links) es" "mset (holders w) = mset links"
    by (simp_all add: main_def)
qed

lemma sync_at_loop:
  assumes "status w = Running" "c \<notin> set (closed w)" "pool w = receive_loop c # cs"
    "i < length cs" "cs ! i = Send c v k"
  shows "run w [Sync (Suc i) 0] =
    Some ([EvComm (Suc i) 0 c v], w\<lparr>pool := Go (func_lit c v) (receive_loop c) # cs[i := k]\<rparr>)"
  using assms by (simp add: receive_loop_def)

lemma send_is_received:
  assumes "run (start main) ss = Some (es, w)" "0 < i" "i < length (pool w)"
    "pool w ! i = Send c v k"
  shows "\<exists>n es' w'. run w (replicate n (Local 0) @ [Sync i 0]) = Some (es' @ [EvComm i 0 c v], w') \<and>
    pool w' ! i = Done"
proof -
  from assms(1) have sh: "shape links w"
    by (rule run_main)
  then obtain m cs where st: "status w = Running" "closed w = []" and p: "pool w = m # cs"
    and alt: "m = main_with links \<and> cs = [] \<and> chans w = 0 \<or>
      chans w = 1 \<and> main_form links 0 m \<and> list_all (child_form links 0) cs"
    unfolding shape_def by blast
  from assms(2) obtain j where i: "i = Suc j"
    by (cases i) auto
  with assms(3) p have j: "j < length cs"
    by simp
  with alt have mf: "main_form links 0 m" and cf: "list_all (child_form links 0) cs"
    by auto
  from assms(4) i p have snd: "cs ! j = Send c v k"
    by simp
  from cf j have "child_form links 0 (cs ! j)"
    by (rule list_all_nth)
  with snd have ck: "c = 0" "k = Done"
    by (auto elim!: child_form_cases simp: func_lit_def checkLink_def)
  from mf show ?thesis
  proof (cases rule: main_form_cases)
    case loop
    with st p j snd ck have "run w [Sync (Suc j) 0] =
      Some ([EvComm (Suc j) 0 c v],
            w\<lparr>pool := Go (func_lit c v) (receive_loop c) # cs[j := k]\<rparr>)"
      by (intro sync_at_loop) simp_all
    with i ck j have "run w (replicate 0 (Local 0) @ [Sync i 0]) =
        Some ([] @ [EvComm i 0 c v],
              w\<lparr>pool := Go (func_lit c v) (receive_loop c) # cs[j := k]\<rparr>) \<and>
      pool (w\<lparr>pool := Go (func_lit c v) (receive_loop c) # cs[j := k]\<rparr>) ! i = Done"
      by (simp del: run.simps)
    then show ?thesis by blast
  next
    case (spawn l rest)
    let ?cs1 = "cs @ map (\<lambda>l. checkLink l 0) (l # rest)"
    let ?w1 = "w\<lparr>pool := receive_loop 0 # ?cs1\<rparr>"
    from spawn p have "pool w = range_links (l # rest) 0 (receive_loop 0) # cs"
      by simp
    from run_range_links [OF st(1) this]
    have first: "run w (replicate (length (l # rest)) (Local 0)) =
      Some (map (\<lambda>n. EvGo 0 (Suc (length cs) + n)) [0..<length (l # rest)], ?w1)" .
    from st j snd ck have "run ?w1 [Sync (Suc j) 0] =
      Some ([EvComm (Suc j) 0 0 v],
            ?w1\<lparr>pool := Go (func_lit 0 v) (receive_loop 0) # ?cs1[j := Done]\<rparr>)"
      by (intro sync_at_loop) (simp_all add: nth_append)
    with first have "run w (replicate (length (l # rest)) (Local 0) @ [Sync (Suc j) 0]) =
      Some (map (\<lambda>n. EvGo 0 (Suc (length cs) + n)) [0..<length (l # rest)] @
              [EvComm (Suc j) 0 0 v],
            ?w1\<lparr>pool := Go (func_lit 0 v) (receive_loop 0) # ?cs1[j := Done]\<rparr>)"
      by (simp only: run_append option.case prod.case)
    moreover from j have
      "pool (?w1\<lparr>pool := Go (func_lit 0 v) (receive_loop 0) # ?cs1[j := Done]\<rparr>) ! Suc j = Done"
      by simp
    ultimately show ?thesis
      unfolding i ck by blast
  next
    case (relaunch l)
    let ?cs1 = "cs @ [func_lit 0 l]"
    let ?w1 = "w\<lparr>pool := receive_loop 0 # ?cs1\<rparr>"
    from relaunch p st have first: "run w (replicate 1 (Local 0)) =
      Some ([EvGo 0 (Suc (length cs))], ?w1)"
      by simp
    from st j snd ck have "run ?w1 [Sync (Suc j) 0] =
      Some ([EvComm (Suc j) 0 0 v],
            ?w1\<lparr>pool := Go (func_lit 0 v) (receive_loop 0) # ?cs1[j := Done]\<rparr>)"
      by (intro sync_at_loop) (simp_all add: nth_append)
    with first have "run w (replicate 1 (Local 0) @ [Sync (Suc j) 0]) =
      Some ([EvGo 0 (Suc (length cs))] @ [EvComm (Suc j) 0 0 v],
            ?w1\<lparr>pool := Go (func_lit 0 v) (receive_loop 0) # ?cs1[j := Done]\<rparr>)"
      by (simp only: run_append option.case prod.case)
    moreover from j have
      "pool (?w1\<lparr>pool := Go (func_lit 0 v) (receive_loop 0) # ?cs1[j := Done]\<rparr>) ! Suc j = Done"
      by simp
    ultimately show ?thesis
      unfolding i ck by blast
  qed
qed

lemma probe_and_print:
  assumes "status w = Running" "i < length (pool w)" "pool w ! i = checkLink link c"
  shows "run w [Net i (resp, err), Local i] =
      Some ([EvGet i link (resp, err),
             EvPrintln i (link @ (if err = None then '' is up!'' else '' might be down!'') @
               [newline])],
            w\<lparr>pool := (pool w)[i := Send c link Done],
               stdout := stdout w @ link @
                 (if err = None then '' is up!'' else '' might be down!'') @ [newline]\<rparr>)"
  using assms by (simp add: checkLink_def)

lemma first_probe:
  "run (start (main_with (l # rest)))
     (replicate (Suc (Suc (length rest))) (Local 0) @ [Net 1 (resp, err), Local 1]) =
   Some ((EvMake 0 0 # map (\<lambda>n. EvGo 0 (Suc n)) [0..<Suc (length rest)]) @
         [EvGet 1 l (resp, err),
          EvPrintln 1 (l @ (if err = None then '' is up!'' else '' might be down!'') @
            [newline])],
         \<lparr>pool = receive_loop 0 # Send 0 l Done # map (\<lambda>l. checkLink l 0) rest,
          chans = 1, closed = [],
          stdout = l @ (if err = None then '' is up!'' else '' might be down!'') @ [newline],
          status = Running\<rparr>)"
proof -
  let ?w = "\<lparr>pool = receive_loop 0 # map (\<lambda>l. checkLink l 0) (l # rest), chans = 1,
             closed = [], stdout = [], status = Running\<rparr>"
  have up: "run (start (main_with (l # rest))) (replicate (Suc (Suc (length rest))) (Local 0)) =
      Some (EvMake 0 0 # map (\<lambda>n. EvGo 0 (Suc n)) [0..<Suc (length rest)], ?w)"
    using startup [of "l # rest"] by (simp del: run.simps step.simps upt_Suc replicate.simps)
  have "run ?w [Net 1 (resp, err), Local 1] =
      Some ([EvGet 1 l (resp, err),
             EvPrintln 1 (l @ (if err = None then '' is up!'' else '' might be down!'') @
               [newline])],
            ?w\<lparr>pool := (pool ?w)[1 := Send 0 l Done],
               stdout := stdout ?w @ l @
                 (if err = None then '' is up!'' else '' might be down!'') @ [newline]\<rparr>)"
    by (rule probe_and_print) simp_all
  then have probe: "run ?w [Net 1 (resp, err), Local 1] =
      Some ([EvGet 1 l (resp, err),
             EvPrintln 1 (l @ (if err = None then '' is up!'' else '' might be down!'') @
               [newline])],
         \<lparr>pool = receive_loop 0 # Send 0 l Done # map (\<lambda>l. checkLink l 0) rest,
          chans = 1, closed = [],
          stdout = l @ (if err = None then '' is up!'' else '' might be down!'') @ [newline],
          status = Running\<rparr>)"
    by (simp del: run.simps step.simps)
  show ?thesis
    by (simp only: run_append up probe option.case prod.case)
qed

lemma main_first_probe:
  "run (start main) (replicate 6 (Local 0) @ [Net 1 (None, Some e), Local 1]) =
   Some ([EvMake 0 0, EvGo 0 1, EvGo 0 2, EvGo 0 3, EvGo 0 4, EvGo 0 5,
          EvGet 1 ''http://google.com'' (None, Some e),
          EvPrintln 1 (''http://google.com might be down!'' @ [newline])],
         \<lparr>pool = [receive_loop 0, Send 0 ''http://google.com'' Done,
                  checkLink ''http://facebook.com'' 0, checkLink ''http://stackoverflow.com'' 0,
                  checkLink ''http://golang.org'' 0, checkLink ''http://amazon.com'' 0],
          chans = 1, closed = [],
          stdout = ''http://google.com might be down!'' @ [newline], status = Running\<rparr>)"
proof -
  let ?rest = "[''http://facebook.com'', ''http://stackoverflow.com'', ''http://golang.org'',
      ''http://amazon.com'']"
  note fp = first_probe [of "''http://google.com''" ?rest None "Some e"]
  have m: "main_with (''http://google.com'' # ?rest) = main"
    by (simp add: main_def links_def)
  have sched: "replicate (Suc (Suc (length ?rest))) (Local 0) @
      [Net 1 (None, Some e), Local 1] =
      replicate 6 (Local 0) @ [Net 1 (None, Some e), Local 1]"
    by (simp add: numeral_eq_Suc)
  have evs: "(EvMake 0 0 # map (\<lambda>n. EvGo 0 (Suc n)) [0..<Suc (length ?rest)]) @
      [EvGet 1 ''http://google.com'' (None, Some e),
       EvPrintln 1 (''http://google.com'' @
         (if Some e = None then '' is up!'' else '' might be down!'') @ [newline])] =
      [EvMake 0 0, EvGo 0 1, EvGo 0 2, EvGo 0 3, EvGo 0 4, EvGo 0 5,
       EvGet 1 ''http://google.com'' (None, Some e),
       EvPrintln 1 (''http://google.com might be down!'' @ [newline])]"
    by (simp add: upt_rec)
  have wd: "\<lparr>pool = receive_loop 0 # Send 0 ''http://google.com'' Done #
               map (\<lambda>l. checkLink l 0) ?rest,
             chans = 1, closed = [],
             stdout = ''http://google.com'' @
               (if Some e = None then '' is up!'' else '' might be down!'') @ [newline],
             status = Running\<rparr> =
      \<lparr>pool = [receive_loop 0, Send 0 ''http://google.com'' Done,
              checkLink ''http://facebook.com'' 0, checkLink ''http://stackoverflow.com'' 0,
              checkLink ''http://golang.org'' 0, checkLink ''http://amazon.com'' 0],
       chans = 1, closed = [],
       stdout = ''http://google.com might be down!'' @ [newline], status = Running\<rparr>"
    by simp
  from fp show ?thesis
    unfolding m sched evs wd .
qed

subsection \<open>One call of checkLink\<close>

lemma actions_checkLink:
  "actions (checkLink link c) (resp, err) =
     Some [AGet link,
           APrintln (link @ (if err = None then '' is up!'' else '' might be down!'') @ [newline]),
           ASend c link]"
  by (simp add: checkLink_def)

subsection \<open>Pending probes and pauses are for different links\<close>

lemma probes_pauses_held: "mset (probes p) + mset (pauses p) \<subseteq># mset (held p)"
  by (cases p) simp_all

lemma probing_pausing_held:
  "mset (concat (map probes ps)) + mset (concat (map pauses ps)) \<subseteq># mset (concat (map held ps))"
proof (induction ps)
  case Nil
  show ?case by simp
next
  case (Cons p ps)
  from subset_mset.add_mono [OF probes_pauses_held [of p] Cons.IH] show ?case
    by (simp add: ac_simps)
qed

lemma at_most_one:
  assumes "distinct (holders w)"
  shows "count_list (probing w) l + count_list (pausing w) l \<le> 1"
proof -
  have "count (mset (probing w) + mset (pausing w)) l \<le> count (mset (holders w)) l"
    unfolding probing_def pausing_def holders_def
    by (rule mset_subset_eq_count [OF probing_pausing_held])
  also from assms have "\<dots> \<le> 1"
    by (simp add: distinct_count_atmost_1)
  finally show ?thesis
    by (simp add: count_mset)
qed

lemma unstarted_held: "set (unstarted p) \<subseteq> set (held p)"
proof (induction p)
  case (Go p k)
  have "set (probes p) \<subseteq> set (held p)"
    by (cases p) simp_all
  with Go show ?case by auto
qed auto

lemma unstarted_checkLink_range [simp]:
  "unstarted (range_links rest c (receive_loop c)) = rest"
  by (induction rest) (simp_all add: receive_loop_def checkLink_def)

lemma unstarted_main_with [simp]: "unstarted (main_with ls) = ls"
  by (simp add: main_with_def)

lemma snoc_split:
  assumes "es @ [e] = es1 @ x # es2"
  shows "es2 = [] \<and> e = x \<and> es1 = es \<or> (\<exists>es2'. es2 = es2' @ [e] \<and> es = es1 @ x # es2')"
proof (cases es2 rule: rev_cases)
  case Nil
  with assms show ?thesis by simp
next
  case (snoc ys y)
  with assms have "es @ [e] = (es1 @ x # ys) @ [y]"
    by simp
  then have "es = es1 @ x # ys" "e = y"
    by simp_all
  with snoc show ?thesis by simp
qed

lemma fresh_snoc:
  assumes "fresh es l" "\<And>i r. e \<noteq> EvGet i l r"
  shows "fresh (es @ [e]) l"
  unfolding fresh_def
proof (intro allI)
  fix i r
  from assms(1) have "EvGet i l r \<notin> set es"
    unfolding fresh_def by blast
  with assms(2) [of i r] show "EvGet i l r \<notin> set (es @ [e])"
    by simp
qed

lemma started_snoc:
  assumes "started es l j" "\<And>i r. e \<noteq> EvGet i l r"
  shows "started (es @ [e]) l j"
  unfolding started_def
proof (intro allI impI)
  fix es1 i r es2
  assume "es @ [e] = es1 @ EvGet i l r # es2"
  from snoc_split [OF this] assms(2) [of i r] obtain es2' where
    es2: "es2 = es2' @ [e]" and es: "es = es1 @ EvGet i l r # es2'"
    by blast
  from assms(1) es have "EvGo 0 j \<in> set es2'"
    unfolding started_def by blast
  with es2 show "EvGo 0 j \<in> set es2"
    by simp
qed

lemma settled_snoc:
  assumes "settled es l j" "\<And>i r. e \<noteq> EvGet i l r"
  shows "settled (es @ [e]) l j"
  unfolding settled_def
proof (intro allI impI)
  fix es1 i r es2
  assume "es @ [e] = es1 @ EvGet i l r # es2"
  from snoc_split [OF this] assms(2) [of i r] obtain es2' where
    es2: "es2 = es2' @ [e]" and es: "es = es1 @ EvGet i l r # es2'"
    by blast
  from assms(1) es obtain a b c where "es2' = a @ EvGo 0 j # b @ EvSleep j (5 * Second) # c"
    unfolding settled_def by blast
  with es2 have "es2 = a @ EvGo 0 j # b @ EvSleep j (5 * Second) # (c @ [e])"
    by simp
  then show "\<exists>a b c. es2 = a @ EvGo 0 j # b @ EvSleep j (5 * Second) # c"
    by blast
qed

lemma fresh_settled:
  assumes "fresh es l" "\<And>i r. e \<noteq> EvGet i l r"
  shows "settled (es @ [e]) l j"
proof -
  from assms have "fresh (es @ [e]) l"
    by (rule fresh_snoc)
  show ?thesis
    unfolding settled_def
  proof (intro allI impI)
    fix es1 i r es2
    assume "es @ [e] = es1 @ EvGet i l r # es2"
    then have "EvGet i l r \<in> set (es @ [e])"
      by (metis in_set_conv_decomp)
    with \<open>fresh (es @ [e]) l\<close>
    show "\<exists>a b c. es2 = a @ EvGo 0 j # b @ EvSleep j (5 * Second) # c"
      unfolding fresh_def by blast
  qed
qed

lemma go_started: "started (es @ [EvGo 0 j]) l j"
  unfolding started_def
proof (intro allI impI)
  fix es1 i r es2
  assume "es @ [EvGo 0 j] = es1 @ EvGet i l r # es2"
  from snoc_split [OF this] show "EvGo 0 j \<in> set es2"
    by (elim disjE conjE exE) simp_all
qed

lemma started_settled:
  assumes "started es l j"
  shows "settled (es @ [EvSleep j (5 * Second)]) l j"
  unfolding settled_def
proof (intro allI impI)
  fix es1 i r es2
  assume "es @ [EvSleep j (5 * Second)] = es1 @ EvGet i l r # es2"
  from snoc_split [OF this] obtain es2' where
    es2: "es2 = es2' @ [EvSleep j (5 * Second)]" and es: "es = es1 @ EvGet i l r # es2'"
    by (elim disjE conjE exE) simp_all
  from assms es have "EvGo 0 j \<in> set es2'"
    unfolding started_def by blast
  then obtain a b where "es2' = a @ EvGo 0 j # b"
    by (blast dest: split_list)
  with es2 have "es2 = a @ EvGo 0 j # b @ EvSleep j (5 * Second) # []"
    by simp
  then show "\<exists>a b c. es2 = a @ EvGo 0 j # b @ EvSleep j (5 * Second) # c"
    by blast
qed

lemma held_apart:
  assumes "distinct (concat (map held ps))" "i < length ps" "j < length ps" "i \<noteq> j"
    "l \<in> set (held (ps ! i))" "l \<in> set (held (ps ! j))"
  shows False
  using assms
proof (induction ps arbitrary: i j)
  case Nil
  then show ?case by simp
next
  case (Cons p ps)
  show ?case
  proof (cases i)
    case 0
    with Cons.prems obtain j' where "j = Suc j'" "j' < length ps" "l \<in> set (held (ps ! j'))"
      by (cases j) auto
    then have "l \<in> set (concat (map held ps))"
      by auto
    with Cons.prems 0 show False
      by auto
  next
    case (Suc i')
    show False
    proof (cases j)
      case 0
      from Suc Cons.prems have "l \<in> set (concat (map held ps))"
        by auto
      with Cons.prems 0 show False
        by auto
    next
      case j: (Suc j')
      with Suc Cons.prems Cons.IH [of i' j'] show False
        by auto
    qed
  qed
qed

subsection \<open>The steps of the running program\<close>

lemma step_cases [consumes 2, case_names make spawn relaunch pause probe print handover]:
  assumes sh: "shape ls w" and st: "step w s = Some (e, w')"
  obtains
    (make) "pool w = [main_with ls]" "e = EvMake 0 0"
      "pool w' = [range_links ls 0 (receive_loop 0)]"
  | (spawn) l rest cs where
      "pool w = Go (checkLink l 0) (range_links rest 0 (receive_loop 0)) # cs"
      "e = EvGo 0 (Suc (length cs))"
      "pool w' = range_links rest 0 (receive_loop 0) # cs @ [checkLink l 0]"
  | (relaunch) l cs where
      "pool w = Go (func_lit 0 l) (receive_loop 0) # cs"
      "e = EvGo 0 (Suc (length cs))"
      "pool w' = receive_loop 0 # cs @ [func_lit 0 l]"
  | (pause) m cs j l where
      "pool w = m # cs" "j < length cs" "cs ! j = func_lit 0 l"
      "e = EvSleep (Suc j) (5 * Second)" "pool w' = m # cs[j := checkLink l 0]"
  | (probe) m cs j l r msg where
      "pool w = m # cs" "j < length cs" "cs ! j = checkLink l 0"
      "e = EvGet (Suc j) l r" "pool w' = m # cs[j := Println [l, msg] (Send 0 l Done)]"
  | (print) m cs j l msg where
      "pool w = m # cs" "j < length cs" "cs ! j = Println [l, msg] (Send 0 l Done)"
      "e = EvPrintln (Suc j) (sprintln [l, msg])" "pool w' = m # cs[j := Send 0 l Done]"
  | (handover) cs j l where
      "pool w = receive_loop 0 # cs" "j < length cs" "cs ! j = Send 0 l Done"
      "e = EvComm (Suc j) 0 0 l"
      "pool w' = Go (func_lit 0 l) (receive_loop 0) # cs[j := Done]"
proof -
  from sh obtain m cs where
    base: "status w = Running" "closed w = []" "pool w = m # cs" and
    alt: "m = main_with ls \<and> cs = [] \<and> chans w = 0 \<or>
          chans w = 1 \<and> main_form ls 0 m \<and> list_all (child_form ls 0) cs"
    unfolding shape_def by blast
  from alt show thesis
  proof
    assume first: "m = main_with ls \<and> cs = [] \<and> chans w = 0"
    have idx: "\<not> Suc 0 \<le> i \<Longrightarrow> i = 0" for i by simp
    from first base st have "pool w = [main_with ls]" "e = EvMake 0 0"
      "pool w' = [range_links ls 0 (receive_loop 0)]"
      by (cases s; auto simp: main_with_def dest!: idx split: if_splits)+
    then show thesis by (rule make)
  next
    assume later: "chans w = 1 \<and> main_form ls 0 m \<and> list_all (child_form ls 0) cs"
    then have mf: "main_form ls 0 m" and cf: "list_all (child_form ls 0) cs"
      by simp_all
    show thesis
    proof (cases s)
      case (Local i)
      show thesis
      proof (cases i)
        case 0
        from mf show thesis
        proof (cases rule: main_form_cases)
          case loop
          with base st Local 0 show thesis by (simp add: receive_loop_def)
        next
          case (spawn l rest)
          with base st Local 0 have
            "pool w = Go (checkLink l 0) (range_links rest 0 (receive_loop 0)) # cs"
            "e = EvGo 0 (Suc (length cs))"
            "pool w' = range_links rest 0 (receive_loop 0) # cs @ [checkLink l 0]"
            by auto
          then show thesis by (rule that(2))
        next
          case (relaunch l)
          with base st Local 0 have
            "pool w = Go (func_lit 0 l) (receive_loop 0) # cs"
            "e = EvGo 0 (Suc (length cs))"
            "pool w' = receive_loop 0 # cs @ [func_lit 0 l]"
            by auto
          then show thesis by (rule that(3))
        qed
      next
        case (Suc j)
        from base st Local Suc have j: "j < length cs"
          by (auto split: if_splits)
        with cf have "child_form ls 0 (cs ! j)"
          by (rule list_all_nth)
        then show thesis
        proof (cases rule: child_form_cases)
          case ended
          with base st Local Suc j show thesis by simp
        next
          case (pausing l)
          with base st Local Suc j have "e = EvSleep (Suc j) (5 * Second)"
            "pool w' = m # cs[j := checkLink l 0]"
            by (auto simp: func_lit_def)
          with base(3) j pausing(2) show thesis by (rule that(4))
        next
          case (probing l)
          with base st Local Suc j show thesis by (simp add: checkLink_def)
        next
          case (down l)
          with base st Local Suc j have
            "e = EvPrintln (Suc j) (sprintln [l, ''might be down!''])"
            "pool w' = m # cs[j := Send 0 l Done]"
            by auto
          with base(3) j down(2) show thesis by (rule that(6))
        next
          case (up l)
          with base st Local Suc j have
            "e = EvPrintln (Suc j) (sprintln [l, ''is up!''])"
            "pool w' = m # cs[j := Send 0 l Done]"
            by auto
          with base(3) j up(2) show thesis by (rule that(6))
        next
          case (sending l)
          with base st Local Suc j show thesis by simp
        qed
      qed
    next
      case (Net i r)
      show thesis
      proof (cases i)
        case 0
        from mf base st Net 0 show thesis
          by (cases rule: main_form_cases) (simp_all add: receive_loop_def)
      next
        case (Suc j)
        from base st Net Suc have j: "j < length cs"
          by (auto split: if_splits)
        with cf have "child_form ls 0 (cs ! j)"
          by (rule list_all_nth)
        then show thesis
        proof (cases rule: child_form_cases)
          case (probing l)
          obtain resp err where r: "r = (resp, err)" by (cases r)
          let ?msg = "if err \<noteq> None then ''might be down!'' else ''is up!''"
          from probing base st Net Suc j r have "e = EvGet (Suc j) l r"
            "pool w' = m # cs[j := Println [l, ?msg] (Send 0 l Done)]"
            by (auto simp: checkLink_def)
          with base(3) j probing(2) show thesis by (rule that(5))
        qed (use base st Net Suc j in \<open>simp_all add: func_lit_def\<close>)
      qed
    next
      case (Sync i j)
      from st Sync have ij: "i < length (pool w)" "j < length (pool w)" "i \<noteq> j"
        by (auto split: if_splits)
      from st Sync ij base(1) obtain c v k body k' where
        snd: "pool w ! i = Send c v k" and rcv: "pool w ! j = Range c body k'"
        by (auto split: proc.splits if_splits)
      have j0: "j = 0"
      proof (rule ccontr)
        assume "j \<noteq> 0"
        then obtain j' where j': "j = Suc j'" by (cases j) auto
        with ij base(3) cf have "child_form ls 0 (cs ! j')"
          by (simp add: list_all_nth)
        with rcv j' base(3) show False
          by (simp add: child_not_Range)
      qed
      with ij obtain i' where i': "i = Suc i'" by (cases i) auto
      with ij base(3) have i'len: "i' < length cs" by simp
      with cf have c: "child_form ls 0 (cs ! i')"
        by (rule list_all_nth)
      from snd i' base(3) have sndc: "cs ! i' = Send c v k" by simp
      from c sndc have l: "c = 0" "k = Done"
        by (auto elim!: child_form_cases simp: func_lit_def checkLink_def)
      from rcv j0 base(3) have "m = Range c body k'" by simp
      with mf have m: "m = receive_loop 0" "body = (\<lambda>l. Go (func_lit 0 l) Done)" "k' = Done"
        by (auto elim!: main_form_cases simp: receive_loop_def l)
      from base st Sync i' j0 sndc l m i'len have
        "e = EvComm (Suc i') 0 0 v"
        "pool w' = Go (func_lit 0 v) (receive_loop 0) # cs[i' := Done]"
        by (auto simp: receive_loop_def)
      moreover from base(3) m have "pool w = receive_loop 0 # cs" by simp
      moreover from sndc l have "cs ! i' = Send 0 v Done" by simp
      ultimately show thesis
        using i'len by (intro that(7))
    qed
  qed
qed

subsection \<open>The events so far and the state\<close>

lemma checkLink_not_func_lit: "checkLink l c \<noteq> func_lit c' l'"
  by (simp add: checkLink_def func_lit_def)

lemma checkLink_inj: "checkLink l c = checkLink l' c' \<Longrightarrow> l = l'"
  by (simp add: checkLink_def)

lemma func_lit_inj: "func_lit c l = func_lit c' l' \<Longrightarrow> l = l'"
  by (auto simp: func_lit_def dest: checkLink_inj)

lemma history_update:
  assumes H: "history es w" and p: "pool w = m # cs" and p': "pool w' = m' # cs[j := x]"
    and others: "\<And>j' l. j' < length cs \<Longrightarrow> j' \<noteq> j \<Longrightarrow>
      cs ! j' = checkLink l 0 \<or> cs ! j' = func_lit 0 l \<Longrightarrow> (\<forall>i r. e \<noteq> EvGet i l r)"
    and main: "\<And>l. l \<in> set (unstarted m') \<Longrightarrow>
      l \<in> set (unstarted m) \<and> (\<forall>i r. e \<noteq> EvGet i l r)"
    and x1: "\<And>l. x = checkLink l 0 \<Longrightarrow> settled (es @ [e]) l (Suc j)"
    and x2: "\<And>l. x = func_lit 0 l \<Longrightarrow> started (es @ [e]) l (Suc j)"
  shows "history (es @ [e]) w'"
  unfolding history_def
proof (intro conjI allI impI)
  fix j' l
  assume a: "0 < j' \<and> j' < length (pool w') \<and> pool w' ! j' = checkLink l 0"
  then obtain k where k: "j' = Suc k" "k < length cs"
    using p' by (cases j') auto
  show "settled (es @ [e]) l j'"
  proof (cases "k = j")
    case True
    with a k p' have "x = checkLink l 0" by simp
    with True k show ?thesis by (simp add: x1)
  next
    case False
    with a k p' p have old: "cs ! k = checkLink l 0" "pool w ! j' = checkLink l 0"
      by simp_all
    with H k p have "settled es l j'"
      unfolding history_def by simp
    moreover from others [OF k(2) False, of l] old have "e \<noteq> EvGet i l r" for i r
      by blast
    ultimately show ?thesis by (rule settled_snoc)
  qed
next
  fix j' l
  assume a: "0 < j' \<and> j' < length (pool w') \<and> pool w' ! j' = func_lit 0 l"
  then obtain k where k: "j' = Suc k" "k < length cs"
    using p' by (cases j') auto
  show "started (es @ [e]) l j'"
  proof (cases "k = j")
    case True
    with a k p' have "x = func_lit 0 l" by simp
    with True k show ?thesis by (simp add: x2)
  next
    case False
    with a k p' p have old: "cs ! k = func_lit 0 l" "pool w ! j' = func_lit 0 l"
      by simp_all
    with H k p have "started es l j'"
      unfolding history_def by simp
    moreover from others [OF k(2) False, of l] old have "e \<noteq> EvGet i l r" for i r
      by blast
    ultimately show ?thesis by (rule started_snoc)
  qed
next
  fix l
  assume "l \<in> set (unstarted (pool w' ! 0))"
  with p' have "l \<in> set (unstarted m')" by simp
  from main [OF this] have old: "l \<in> set (unstarted m)" and ev: "\<And>i r. e \<noteq> EvGet i l r"
    by blast+
  from H p old have "fresh es l"
    unfolding history_def by simp
  then show "fresh (es @ [e]) l"
    using ev by (rule fresh_snoc)
qed

lemma history_append:
  assumes H: "history es w" and p: "pool w = m # cs" and p': "pool w' = m' # cs @ [x]"
    and ev: "\<And>i l r. e \<noteq> EvGet i l r"
    and main: "set (unstarted m') \<subseteq> set (unstarted m)"
    and x1: "\<And>l. x = checkLink l 0 \<Longrightarrow> settled (es @ [e]) l (Suc (length cs))"
    and x2: "\<And>l. x = func_lit 0 l \<Longrightarrow> started (es @ [e]) l (Suc (length cs))"
  shows "history (es @ [e]) w'"
  unfolding history_def
proof (intro conjI allI impI)
  fix j' l
  assume a: "0 < j' \<and> j' < length (pool w') \<and> pool w' ! j' = checkLink l 0"
  then obtain k where k: "j' = Suc k" "k \<le> length cs"
    using p' by (cases j') auto
  show "settled (es @ [e]) l j'"
  proof (cases "k = length cs")
    case True
    with a k p' have "x = checkLink l 0" by simp
    with True k show ?thesis by (simp add: x1)
  next
    case False
    with k have "k < length cs" by simp
    with a k p' p have "0 < j'" "j' < length (pool w)" "pool w ! j' = checkLink l 0"
      by (simp_all add: nth_append)
    with H have "settled es l j'"
      unfolding history_def by blast
    then show ?thesis
      using ev by (rule settled_snoc)
  qed
next
  fix j' l
  assume a: "0 < j' \<and> j' < length (pool w') \<and> pool w' ! j' = func_lit 0 l"
  then obtain k where k: "j' = Suc k" "k \<le> length cs"
    using p' by (cases j') auto
  show "started (es @ [e]) l j'"
  proof (cases "k = length cs")
    case True
    with a k p' have "x = func_lit 0 l" by simp
    with True k show ?thesis by (simp add: x2)
  next
    case False
    with k have "k < length cs" by simp
    with a k p' p have "0 < j'" "j' < length (pool w)" "pool w ! j' = func_lit 0 l"
      by (simp_all add: nth_append)
    with H have "started es l j'"
      unfolding history_def by blast
    then show ?thesis
      using ev by (rule started_snoc)
  qed
next
  fix l
  assume "l \<in> set (unstarted (pool w' ! 0))"
  with p' main have "l \<in> set (unstarted m)" by auto
  with H p have "fresh es l"
    unfolding history_def by simp
  then show "fresh (es @ [e]) l"
    using ev by (rule fresh_snoc)
qed

lemma history_step:
  assumes sh: "shape ls w" and st: "step w s = Some (e, w')"
    and d: "distinct (holders w)" and H: "history es w"
  shows "history (es @ [e]) w'"
  using sh st
proof (cases rule: step_cases)
  case make
  show ?thesis
    unfolding history_def
  proof (intro conjI allI impI)
    fix l
    assume "l \<in> set (unstarted (pool w' ! 0))"
    with make have "l \<in> set (unstarted (pool w ! 0))" by simp
    with H have "fresh es l"
      unfolding history_def by blast
    then show "fresh (es @ [e]) l"
      using make(2) by (intro fresh_snoc) simp_all
  qed (use make in simp_all)
next
  case (spawn l rest cs)
  from H spawn(1) have "fresh es l"
    unfolding history_def by (simp add: checkLink_def)
  then have "settled (es @ [e]) l (Suc (length cs))"
    using spawn(2) by (intro fresh_settled) simp_all
  with H spawn show ?thesis
    by (intro history_append [where x = "checkLink l 0" and m' = "range_links rest 0 (receive_loop 0)"])
      (auto simp: checkLink_not_func_lit dest: checkLink_inj)
next
  case (relaunch l cs)
  have "started (es @ [e]) l (Suc (length cs))"
    unfolding relaunch(2) by (rule go_started)
  with H relaunch show ?thesis
    by (intro history_append [where x = "func_lit 0 l" and m' = "receive_loop 0"])
      (auto simp: checkLink_not_func_lit [symmetric] dest: func_lit_inj)
next
  case (pause m cs j l)
  from H pause have "started es l (Suc j)"
    unfolding history_def by simp
  then have "settled (es @ [e]) l (Suc j)"
    unfolding pause(4) by (rule started_settled)
  with H pause show ?thesis
    by (intro history_update [where x = "checkLink l 0" and m' = m and m = m])
      (auto simp: checkLink_not_func_lit dest: checkLink_inj)
next
  case (probe m cs j l r msg)
  have apart: "l' \<noteq> l" if "i < length (pool w)" "i \<noteq> Suc j" "l' \<in> set (held (pool w ! i))"
    for i l'
  proof
    assume "l' = l"
    with probe that d show False
      using held_apart [of "pool w" i "Suc j" l] by (simp add: holders_def)
  qed
  show ?thesis
  proof (rule history_update [OF H probe(1) probe(5)])
    fix j' l'
    assume "j' < length cs" "j' \<noteq> j" "cs ! j' = checkLink l' 0 \<or> cs ! j' = func_lit 0 l'"
    with probe(1) have "l' \<noteq> l"
      by (intro apart [of "Suc j'"]) auto
    with probe(4) show "\<forall>i r. e \<noteq> EvGet i l' r" by simp
  next
    fix l'
    assume l': "l' \<in> set (unstarted m)"
    with unstarted_held [of m] probe(1) have "l' \<noteq> l"
      by (intro apart [of 0]) auto
    with l' probe(4) show "l' \<in> set (unstarted m) \<and> (\<forall>i r. e \<noteq> EvGet i l' r)" by simp
  qed (simp_all add: checkLink_def func_lit_def)
next
  case (print m cs j l msg)
  with H show ?thesis
    by (intro history_update [where x = "Send 0 l Done" and m' = m and m = m])
      (auto simp: checkLink_def func_lit_def)
next
  case (handover cs j l)
  with H show ?thesis
    by (intro history_update [where x = Done and m = "receive_loop 0"
          and m' = "Go (func_lit 0 l) (receive_loop 0)"])
      (auto simp: checkLink_def func_lit_def receive_loop_def)
qed

lemma run_history:
  assumes "shape ls w" "distinct (holders w)" "history hist w" "run w ss = Some (es, w')"
  shows "history (hist @ es) w'"
  using assms
proof (induction ss arbitrary: w hist es)
  case Nil
  then show ?case by simp
next
  case (Cons s ss)
  from Cons.prems(4) obtain e w1 es1 where
    st: "step w s = Some (e, w1)" and rest: "run w1 ss = Some (es1, w')" and es: "es = e # es1"
    by (auto split: option.splits prod.splits)
  from step_shape [OF Cons.prems(1) st] have sh1: "shape ls w1"
    and kept: "mset (holders w1) = mset (holders w)"
    by simp_all
  from Cons.prems(2) have d1: "distinct (holders w1)"
    unfolding mset_eq_imp_distinct_iff [OF kept] .
  from Cons.prems(1) st Cons.prems(2,3) have "history (hist @ [e]) w1"
    by (rule history_step)
  from Cons.IH [OF sh1 d1 this rest] es show ?case by simp
qed

lemma main_history:
  assumes "run (start main) ss = Some (es, w)"
  shows "history es w"
proof -
  have "holders (start main) = links"
    by (simp add: holders_def start_def main_def main_with_def)
  then have d: "distinct (holders (start main))"
    by (simp add: links_def)
  have h: "history [] (start main)"
    by (simp add: history_def start_def fresh_def)
  from run_history [OF shape_start [of links, folded main_def] d h assms] show ?thesis
    by simp
qed

lemma main_distinct:
  assumes "run (start main) ss = Some (es, w)"
  shows "distinct (holders w)"
proof -
  from assms have kept: "mset (holders w) = mset links"
    by (rule run_main)
  show ?thesis
    unfolding mset_eq_imp_distinct_iff [OF kept] by (simp add: links_def)
qed

lemma run_split:
  "run w ss = Some (es1 @ e # es2, w') \<Longrightarrow>
     \<exists>ss1 s w1 w2. run w ss1 = Some (es1, w1) \<and> step w1 s = Some (e, w2)"
proof (induction es1 arbitrary: w ss)
  case Nil
  then obtain s w2 where "step w s = Some (e, w2)"
    by (cases ss) (auto split: option.splits)
  moreover have "run w [] = Some ([], w)"
    by simp
  ultimately show ?case
    by blast
next
  case (Cons x xs)
  then obtain s rest wa where ss: "ss = s # rest" and st: "step w s = Some (x, wa)"
    and tail: "run wa rest = Some (xs @ e # es2, w')"
    by (cases ss) (auto split: option.splits)
  from Cons.IH [OF tail] obtain ss1 s' w1 w2 where
    pre: "run wa ss1 = Some (xs, w1)" and nxt: "step w1 s' = Some (e, w2)"
    by blast
  from st pre have "run w (s # ss1) = Some (x # xs, w1)"
    by simp
  with nxt show ?case
    by blast
qed

lemma pause_before_next_probe:
  assumes r: "run (start main) ss = Some (es1 @ EvGet i l r # es2 @ EvGet j l r' # es3, w)"
  shows "\<exists>a b c. es2 = a @ EvGo 0 j # b @ EvSleep j (5 * Second) # c"
proof -
  let ?pre = "es1 @ EvGet i l r # es2"
  from r have "run (start main) ss = Some (?pre @ EvGet j l r' # es3, w)"
    by simp
  from run_split [OF this] obtain ss1 s w1 w2 where
    pre: "run (start main) ss1 = Some (?pre, w1)" and
    st: "step w1 s = Some (EvGet j l r', w2)"
    by blast
  from pre have sh: "shape links w1" by (rule run_main)
  from pre have H: "history ?pre w1" by (rule main_history)
  from sh st have "0 < j \<and> j < length (pool w1) \<and> pool w1 ! j = checkLink l 0"
    by (cases rule: step_cases) simp_all
  with H have "settled ?pre l j"
    unfolding history_def by blast
  then show ?thesis
    unfolding settled_def by blast
qed

lemma main_second_probe:
  "run (start main)
     (replicate 6 (Local 0) @
      [Net 1 (None, Some e), Local 1, Sync 1 0, Local 0, Local 6, Net 6 (None, Some e')]) =
     Some ([EvMake 0 0, EvGo 0 1, EvGo 0 2, EvGo 0 3, EvGo 0 4, EvGo 0 5,
            EvGet 1 ''http://google.com'' (None, Some e),
            EvPrintln 1 (''http://google.com might be down!'' @ [newline]),
            EvComm 1 0 0 ''http://google.com'', EvGo 0 6, EvSleep 6 (5 * Second),
            EvGet 6 ''http://google.com'' (None, Some e')],
           \<lparr>pool = [receive_loop 0, Done, checkLink ''http://facebook.com'' 0,
                    checkLink ''http://stackoverflow.com'' 0,
                    checkLink ''http://golang.org'' 0, checkLink ''http://amazon.com'' 0,
                    Println [''http://google.com'', ''might be down!'']
                      (Send 0 ''http://google.com'' Done)],
            chans = 1, closed = [],
            stdout = ''http://google.com might be down!'' @ [newline],
            status = Running\<rparr>)"
proof -
  have split: "replicate 6 (Local 0) @
      [Net 1 (None, Some e), Local 1, Sync 1 0, Local 0, Local 6, Net 6 (None, Some e')] =
    (replicate 6 (Local 0) @ [Net 1 (None, Some e), Local 1, Sync 1 0, Local 0, Local 6]) @
      [Net 6 (None, Some e')]"
    by simp
  have last: "run
      \<lparr>pool = [receive_loop 0, Done, checkLink ''http://facebook.com'' 0,
               checkLink ''http://stackoverflow.com'' 0,
               checkLink ''http://golang.org'' 0, checkLink ''http://amazon.com'' 0,
               checkLink ''http://google.com'' 0],
       chans = 1, closed = [],
       stdout = ''http://google.com might be down!'' @ [newline],
       status = Running\<rparr>
      [Net 6 (None, Some e')] =
    Some ([EvGet 6 ''http://google.com'' (None, Some e')],
      \<lparr>pool = [receive_loop 0, Done, checkLink ''http://facebook.com'' 0,
               checkLink ''http://stackoverflow.com'' 0,
               checkLink ''http://golang.org'' 0, checkLink ''http://amazon.com'' 0,
               Println [''http://google.com'', ''might be down!'']
                 (Send 0 ''http://google.com'' Done)],
       chans = 1, closed = [],
       stdout = ''http://google.com might be down!'' @ [newline],
       status = Running\<rparr>)"
    by (simp add: checkLink_def)
  show ?thesis
    unfolding split
    by (subst run_append, simp only: main_first_round last option.case prod.case) simp
qed

subsection \<open>Goroutines that are all asleep\<close>

lemmas choices_simp = choices_def Let_def

lemma step_Net_any: "step w (Net i r) = None \<Longrightarrow> step w (Net i r') = None"
  by (auto split: if_splits proc.splits)

lemma all_asleep_iff: "all_asleep w \<longleftrightarrow> status w = Running \<and> (\<forall>s. step w s = None)"
proof
  assume a: "all_asleep w"
  then have run: "status w = Running"
    and all: "\<And>s. s \<in> set (choices w) \<Longrightarrow> step w s = None"
    by (simp_all add: all_asleep_def list_all_iff)
  have "step w s = None" for s
  proof (cases s)
    case (Local i)
    show ?thesis
    proof (cases "i < length (pool w)")
      case True
      then have "Local i \<in> set (choices w)"
        by (simp add: choices_simp)
      then show ?thesis
        unfolding Local by (rule all)
    next
      case False
      then show ?thesis
        unfolding Local by simp
    qed
  next
    case (Net i r)
    show ?thesis
    proof (cases "i < length (pool w)")
      case True
      then have "Net i (None, None) \<in> set (choices w)"
        by (simp add: choices_simp)
      then have "step w (Net i (None, None)) = None"
        by (rule all)
      then show ?thesis
        unfolding Net by (rule step_Net_any)
    next
      case False
      then show ?thesis
        unfolding Net by simp
    qed
  next
    case (Sync i j)
    show ?thesis
    proof (cases "i < length (pool w) \<and> j < length (pool w)")
      case True
      then have "Sync i j \<in> set (choices w)"
        by (force simp: choices_simp)
      then show ?thesis
        unfolding Sync by (rule all)
    next
      case False
      then show ?thesis
        unfolding Sync by auto
    qed
  qed
  with run show "status w = Running \<and> (\<forall>s. step w s = None)"
    by simp
next
  assume "status w = Running \<and> (\<forall>s. step w s = None)"
  then show "all_asleep w"
    by (simp add: all_asleep_def list_all_iff)
qed

lemma waiting_alone_stuck:
  "step \<lparr>pool = [receive_loop c], chans = n, closed = [], stdout = out, status = Running\<rparr> s = None"
proof (cases s)
  case (Local i)
  then show ?thesis by (cases i) (simp_all add: receive_loop_def)
next
  case (Net i r)
  then show ?thesis by (cases i) (simp_all add: receive_loop_def)
next
  case (Sync i j)
  then show ?thesis by (cases i; cases j) (simp_all add: receive_loop_def)
qed

lemma run_stuck: "(\<And>s. step w s = None) \<Longrightarrow> run w ss = Some (es, w') \<Longrightarrow> ss = [] \<and> es = [] \<and> w' = w"
  by (cases ss) simp_all

lemma no_links_runs:
  assumes "run (start (main_with [])) ss = Some (es, w)"
  shows "ss = [] \<and> es = [] \<and> w = start (main_with []) \<or>
    ss = [Local 0] \<and> es = [EvMake 0 0] \<and>
    w = \<lparr>pool = [receive_loop 0], chans = 1, closed = [], stdout = [], status = Running\<rparr>"
proof (cases ss)
  case Nil
  with assms show ?thesis by simp
next
  case (Cons s rest)
  let ?W = "\<lparr>pool = [receive_loop 0], chans = 1, closed = [], stdout = [], status = Running\<rparr>"
  from assms Cons obtain e w1 es1 where
    st: "step (start (main_with [])) s = Some (e, w1)" and
    tail: "run w1 rest = Some (es1, w)" and es: "es = e # es1"
    by (auto split: option.splits prod.splits)
  have idx: "\<not> Suc 0 \<le> i \<Longrightarrow> i = 0" for i by simp
  from st have s: "s = Local 0" and e: "e = EvMake 0 0" and w1: "w1 = ?W"
    by (cases s; auto simp: start_def main_with_def dest!: idx split: if_splits)+
  from tail have "rest = [] \<and> es1 = [] \<and> w = ?W"
    unfolding w1 by (rule run_stuck [rotated]) (rule waiting_alone_stuck)
  with s e es Cons show ?thesis by simp
qed

lemma asleep_example:
  "all_asleep \<lparr>pool = [receive_loop 0], chans = 1, closed = [], stdout = [], status = Running\<rparr>"
  by (simp add: all_asleep_iff waiting_alone_stuck)

text \<open>With the five links of the source some goroutine can always take a step.\<close>

lemma main_never_asleep:
  assumes "run (start main) ss = Some (es, w)"
  shows "\<not> all_asleep w"
proof
  assume "all_asleep w"
  then have stuck: "\<And>s. step w s = None"
    by (simp add: all_asleep_iff)
  from assms have sh: "shape links w" and kept: "mset (holders w) = mset links"
    by (rule run_main)+
  from sh obtain m cs where
    base: "status w = Running" "closed w = []" "pool w = m # cs" and
    alt: "m = main_with links \<and> cs = [] \<and> chans w = 0 \<or>
          chans w = 1 \<and> main_form links 0 m \<and> list_all (child_form links 0) cs"
    unfolding shape_def by blast
  from alt show False
  proof
    assume "m = main_with links \<and> cs = [] \<and> chans w = 0"
    with base stuck [of "Local 0"] show False
      by (simp add: main_with_def)
  next
    assume later: "chans w = 1 \<and> main_form links 0 m \<and> list_all (child_form links 0) cs"
    then have mf: "main_form links 0 m" and cf: "list_all (child_form links 0) cs"
      by simp_all
    from mf show False
    proof (cases rule: main_form_cases)
      case loop
      from kept have "set (holders w) = set links"
        by (rule mset_eq_setD)
      then have "''http://google.com'' \<in> set (holders w)"
        by (simp add: links_def)
      with base loop obtain c where c: "c \<in> set cs" "held c \<noteq> []"
        by (fastforce simp: holders_def)
      then obtain k where k: "k < length cs" and hk: "held (cs ! k) \<noteq> []"
        by (auto simp: in_set_conv_nth)
      from cf k have "child_form links 0 (cs ! k)"
        by (rule list_all_nth)
      then show False
      proof (cases rule: child_form_cases)
        case ended
        with hk show False by simp
      next
        case (pausing l)
        with base k stuck [of "Local (Suc k)"] show False
          by (simp add: func_lit_def)
      next
        case (probing l)
        with base k stuck [of "Net (Suc k) (None, None)"] show False
          by (simp add: checkLink_def)
      next
        case (down l)
        with base k stuck [of "Local (Suc k)"] show False
          by simp
      next
        case (up l)
        with base k stuck [of "Local (Suc k)"] show False
          by simp
      next
        case (sending l)
        with base k loop stuck [of "Sync (Suc k) 0"] show False
          by (simp add: receive_loop_def)
      qed
    next
      case (spawn l rest)
      with base stuck [of "Local 0"] show False
        by simp
    next
      case (relaunch l)
      with base stuck [of "Local 0"] show False
        by simp
    qed
  qed
qed

section \<open>The claims\<close>

text \<open>
  C1. At startup the main goroutine allocates the channel and starts one goroutine
  running \<open>checkLink\<close> per link, in order, each with that channel, without waiting for
  anything; it then waits in the receive loop. While it waits there it can do nothing
  but receive; when a goroutine sends it a link, it starts a new goroutine, goes back to
  waiting, and the new goroutine first pauses for \<open>5 * Second\<close> and is then at the start
  of \<open>checkLink\<close> for the same link and the same channel.
\<close>

theorem coordinator_algorithm:
  "run (start (main_with ls)) (replicate (Suc (length ls)) (Local 0)) =
     Some (EvMake 0 0 # map (\<lambda>n. EvGo 0 (Suc n)) [0..<length ls],
           \<lparr>pool = receive_loop 0 # map (\<lambda>l. checkLink l 0) ls, chans = 1, closed = [],
            stdout = [], status = Running\<rparr>) \<and>
   (status w = Running \<and> c \<notin> set (closed w) \<and> pool w ! 0 = receive_loop c \<and>
    0 < i \<and> i < length (pool w) \<and> pool w ! i = Send c l k \<longrightarrow>
      step w (Local 0) = None \<and> step w (Net 0 r) = None \<and>
      run w [Sync i 0, Local 0, Local (length (pool w))] =
        Some ([EvComm i 0 c l, EvGo 0 (length (pool w)),
               EvSleep (length (pool w)) (5 * Second)],
              w\<lparr>pool := (pool w)[i := k] @ [checkLink l c]\<rparr>))"
proof (intro conjI impI)
  show "run (start (main_with ls)) (replicate (Suc (length ls)) (Local 0)) =
     Some (EvMake 0 0 # map (\<lambda>n. EvGo 0 (Suc n)) [0..<length ls],
           \<lparr>pool = receive_loop 0 # map (\<lambda>l. checkLink l 0) ls, chans = 1, closed = [],
            stdout = [], status = Running\<rparr>)"
    by (rule startup)
next
  assume "status w = Running \<and> c \<notin> set (closed w) \<and> pool w ! 0 = receive_loop c \<and>
    0 < i \<and> i < length (pool w) \<and> pool w ! i = Send c l k"
  then have a: "status w = Running" "c \<notin> set (closed w)" "pool w ! 0 = receive_loop c"
    "0 < i" "i < length (pool w)" "pool w ! i = Send c l k"
    by simp_all
  show "step w (Local 0) = None"
    by (rule loop_round(2) [OF a])
  show "step w (Net 0 r) = None"
    by (rule loop_round(3) [OF a])
  show "run w [Sync i 0, Local 0, Local (length (pool w))] =
        Some ([EvComm i 0 c l, EvGo 0 (length (pool w)),
               EvSleep (length (pool w)) (5 * Second)],
              w\<lparr>pool := (pool w)[i := k] @ [checkLink l c]\<rparr>)"
    by (rule loop_round(1) [OF a])
qed

theorem coordinator_algorithm_witness:
  "run (start main) (replicate 6 (Local 0)) =
     Some ([EvMake 0 0, EvGo 0 1, EvGo 0 2, EvGo 0 3, EvGo 0 4, EvGo 0 5],
           \<lparr>pool = [receive_loop 0, checkLink ''http://google.com'' 0,
                    checkLink ''http://facebook.com'' 0,
                    checkLink ''http://stackoverflow.com'' 0,
                    checkLink ''http://golang.org'' 0, checkLink ''http://amazon.com'' 0],
            chans = 1, closed = [], stdout = [], status = Running\<rparr>) \<and>
   step \<lparr>pool = [receive_loop 0, Send 0 ''http://facebook.com'' Done], chans = 1, closed = [],
         stdout = [], status = Running\<rparr> (Local 0) = None \<and>
   run \<lparr>pool = [receive_loop 0, Send 0 ''http://facebook.com'' Done], chans = 1, closed = [],
        stdout = [], status = Running\<rparr> [Sync 1 0, Local 0, Local 2] =
     Some ([EvComm 1 0 0 ''http://facebook.com'', EvGo 0 2, EvSleep 2 (5 * Second)],
           \<lparr>pool = [receive_loop 0, Done, checkLink ''http://facebook.com'' 0], chans = 1,
            closed = [], stdout = [], status = Running\<rparr>)"
proof -
  let ?W = "\<lparr>pool = [receive_loop 0, Send 0 ''http://facebook.com'' Done], chans = 1,
             closed = [], stdout = [], status = Running\<rparr>"
  note inst = coordinator_algorithm
    [of links ?W 0 1 "''http://facebook.com''" Done "(None, None)"]
  have m: "main_with links = main"
    by (simp add: main_def)
  have six: "Suc (length links) = 6"
    by (simp add: links_def)
  have evs: "EvMake 0 0 # map (\<lambda>n. EvGo 0 (Suc n)) [0..<length links] =
      [EvMake 0 0, EvGo 0 1, EvGo 0 2, EvGo 0 3, EvGo 0 4, EvGo 0 5]"
    by (simp add: links_def upt_rec)
  have wd: "\<lparr>pool = receive_loop 0 # map (\<lambda>l. checkLink l 0) links, chans = 1, closed = [],
             stdout = [], status = Running\<rparr> =
      \<lparr>pool = [receive_loop 0, checkLink ''http://google.com'' 0,
               checkLink ''http://facebook.com'' 0, checkLink ''http://stackoverflow.com'' 0,
               checkLink ''http://golang.org'' 0, checkLink ''http://amazon.com'' 0],
       chans = 1, closed = [], stdout = [], status = Running\<rparr>"
    by (simp add: links_def)
  from conjunct1 [OF inst]
  have startup: "run (start main) (replicate 6 (Local 0)) =
     Some ([EvMake 0 0, EvGo 0 1, EvGo 0 2, EvGo 0 3, EvGo 0 4, EvGo 0 5],
           \<lparr>pool = [receive_loop 0, checkLink ''http://google.com'' 0,
                    checkLink ''http://facebook.com'' 0,
                    checkLink ''http://stackoverflow.com'' 0,
                    checkLink ''http://golang.org'' 0, checkLink ''http://amazon.com'' 0],
            chans = 1, closed = [], stdout = [], status = Running\<rparr>)"
    unfolding m six evs wd .
  have hyp: "status ?W = Running \<and> 0 \<notin> set (closed ?W) \<and> pool ?W ! 0 = receive_loop 0 \<and>
      0 < (1::nat) \<and> 1 < length (pool ?W) \<and> pool ?W ! 1 = Send 0 ''http://facebook.com'' Done"
    by simp
  from mp [OF conjunct2 [OF inst] hyp]
  have round: "step ?W (Local 0) = None \<and>
    run ?W [Sync 1 0, Local 0, Local 2] =
     Some ([EvComm 1 0 0 ''http://facebook.com'', EvGo 0 2, EvSleep 2 (5 * Second)],
           \<lparr>pool = [receive_loop 0, Done, checkLink ''http://facebook.com'' 0], chans = 1,
            closed = [], stdout = [], status = Running\<rparr>)"
    by (simp add: eval_nat_numeral del: run.simps step.simps)
  from startup round show ?thesis
    by (rule conjI)
qed

text \<open>
  C2. Whatever \<^verbatim>\<open>http.Get\<close> returns, a call of \<open>checkLink link c\<close> performs exactly one
  send, of \<open>link\<close> on \<open>c\<close>, and that send is the last thing it does. Among the
  goroutines: once the probe has returned and a receiver takes the value, the goroutine
  has printed, sent once and ended; a goroutine that has ended takes no further step.
  And the send does happen: in every state that a run of \<open>main\<close> reaches, a goroutine
  waiting to send is served once the main goroutine has taken the steps it can take on
  its own.
\<close>

theorem checkLink_sends_exactly_once:
  "map_option (filter is_send) (actions (checkLink link c) (resp, err)) = Some [ASend c link] \<and>
   map_option last (actions (checkLink link c) (resp, err)) = Some (ASend c link) \<and>
   (status w = Running \<and> c \<notin> set (closed w) \<and> 0 < i \<and> i < length (pool w) \<and>
    j < length (pool w) \<and> i \<noteq> j \<and>
    pool w ! i = checkLink link c \<and> pool w ! j = Range c body k \<longrightarrow>
    run w [Net i (resp, err), Local i, Sync i j] =
      Some ([EvGet i link (resp, err),
             EvPrintln i (link @ (if err = None then '' is up!'' else '' might be down!'') @
               [newline]),
             EvComm i j c link],
            w\<lparr>pool := (pool w)[i := Done, j := seq (body link) (Range c body k)],
               stdout := stdout w @ link @
                 (if err = None then '' is up!'' else '' might be down!'') @ [newline]\<rparr>)) \<and>
   (0 < i \<and> i < length (pool v) \<and> pool v ! i = Done \<longrightarrow>
    step v (Local i) = None \<and> step v (Net i r) = None \<and>
    step v (Sync i j') = None \<and> step v (Sync j' i) = None) \<and>
   (run (start main) ss = Some (es, u) \<and> 0 < n \<and> n < length (pool u) \<and>
    pool u ! n = Send c' l k' \<longrightarrow>
    (\<exists>m es' u'.
       run u (replicate m (Local 0) @ [Sync n 0]) = Some (es' @ [EvComm n 0 c' l], u') \<and>
       pool u' ! n = Done))"
proof (intro conjI impI)
  show "map_option (filter is_send) (actions (checkLink link c) (resp, err)) =
      Some [ASend c link]"
    by (simp add: checkLink_def)
  show "map_option last (actions (checkLink link c) (resp, err)) = Some (ASend c link)"
    by (simp add: checkLink_def)
next
  assume "status w = Running \<and> c \<notin> set (closed w) \<and> 0 < i \<and> i < length (pool w) \<and>
    j < length (pool w) \<and> i \<noteq> j \<and>
    pool w ! i = checkLink link c \<and> pool w ! j = Range c body k"
  then show "run w [Net i (resp, err), Local i, Sync i j] =
      Some ([EvGet i link (resp, err),
             EvPrintln i (link @ (if err = None then '' is up!'' else '' might be down!'') @
               [newline]),
             EvComm i j c link],
            w\<lparr>pool := (pool w)[i := Done, j := seq (body link) (Range c body k)],
               stdout := stdout w @ link @
                 (if err = None then '' is up!'' else '' might be down!'') @ [newline]\<rparr>)"
    by (simp add: checkLink_def)
next
  assume ended: "0 < i \<and> i < length (pool v) \<and> pool v ! i = Done"
  then have e: "pool v ! i = Done" "0 < i"
    by simp_all
  show "step v (Local i) = None" "step v (Net i r) = None"
    "step v (Sync i j') = None" "step v (Sync j' i) = None"
    by (rule ended_is_stuck [OF e])+
next
  assume "run (start main) ss = Some (es, u) \<and> 0 < n \<and> n < length (pool u) \<and>
    pool u ! n = Send c' l k'"
  then have "run (start main) ss = Some (es, u)" "0 < n" "n < length (pool u)"
    "pool u ! n = Send c' l k'"
    by simp_all
  then show "\<exists>m es' u'.
       run u (replicate m (Local 0) @ [Sync n 0]) = Some (es' @ [EvComm n 0 c' l], u') \<and>
       pool u' ! n = Done"
    by (rule send_is_received)
qed

theorem checkLink_sends_exactly_once_witness:
  "run \<lparr>pool = [receive_loop 0, checkLink ''http://golang.org'' 0], chans = 1, closed = [],
        stdout = [], status = Running\<rparr>
     [Net 1 (None, Some ''timeout''), Local 1, Sync 1 0] =
     Some ([EvGet 1 ''http://golang.org'' (None, Some ''timeout''),
            EvPrintln 1 (''http://golang.org might be down!'' @ [newline]),
            EvComm 1 0 0 ''http://golang.org''],
           \<lparr>pool = [Go (func_lit 0 ''http://golang.org'') (receive_loop 0), Done],
            chans = 1, closed = [],
            stdout = ''http://golang.org might be down!'' @ [newline],
            status = Running\<rparr>) \<and>
   step \<lparr>pool = [Go (func_lit 0 ''http://golang.org'') (receive_loop 0), Done],
         chans = 1, closed = [], stdout = ''http://golang.org might be down!'' @ [newline],
         status = Running\<rparr> (Local 1) = None \<and>
   run (start main) (replicate 6 (Local 0) @ [Net 1 (None, Some ''timeout''), Local 1]) =
     Some ([EvMake 0 0, EvGo 0 1, EvGo 0 2, EvGo 0 3, EvGo 0 4, EvGo 0 5,
          EvGet 1 ''http://google.com'' (None, Some ''timeout''),
          EvPrintln 1 (''http://google.com might be down!'' @ [newline])],
           \<lparr>pool = [receive_loop 0, Send 0 ''http://google.com'' Done,
                  checkLink ''http://facebook.com'' 0, checkLink ''http://stackoverflow.com'' 0,
                  checkLink ''http://golang.org'' 0, checkLink ''http://amazon.com'' 0],
          chans = 1, closed = [],
          stdout = ''http://google.com might be down!'' @ [newline], status = Running\<rparr>) \<and>
   (\<exists>m es' u'.
      run \<lparr>pool = [receive_loop 0, Send 0 ''http://google.com'' Done,
                  checkLink ''http://facebook.com'' 0, checkLink ''http://stackoverflow.com'' 0,
                  checkLink ''http://golang.org'' 0, checkLink ''http://amazon.com'' 0],
          chans = 1, closed = [],
          stdout = ''http://google.com might be down!'' @ [newline], status = Running\<rparr>
        (replicate m (Local 0) @ [Sync 1 0]) =
        Some (es' @ [EvComm 1 0 0 ''http://google.com''], u') \<and>
      pool u' ! 1 = Done)"
proof -
  let ?W = "\<lparr>pool = [receive_loop 0, checkLink ''http://golang.org'' 0], chans = 1,
             closed = [], stdout = [], status = Running\<rparr>"
  let ?V = "\<lparr>pool = [Go (func_lit 0 ''http://golang.org'') (receive_loop 0), Done],
             chans = 1, closed = [], stdout = ''http://golang.org might be down!'' @ [newline],
             status = Running\<rparr>"
  let ?U = "\<lparr>pool = [receive_loop 0, Send 0 ''http://google.com'' Done,
                  checkLink ''http://facebook.com'' 0, checkLink ''http://stackoverflow.com'' 0,
                  checkLink ''http://golang.org'' 0, checkLink ''http://amazon.com'' 0],
          chans = 1, closed = [],
          stdout = ''http://google.com might be down!'' @ [newline], status = Running\<rparr>"
  note inst = checkLink_sends_exactly_once
      [of "''http://golang.org''" 0 None "Some ''timeout''" ?W 1 0
         "\<lambda>l. Go (func_lit 0 l) Done" Done ?V "(None, None)" 0
         "(replicate 6 (Local 0) @ [Net 1 (None, Some ''timeout''), Local 1])" "[EvMake 0 0, EvGo 0 1, EvGo 0 2, EvGo 0 3, EvGo 0 4, EvGo 0 5,
          EvGet 1 ''http://google.com'' (None, Some ''timeout''),
          EvPrintln 1 (''http://google.com might be down!'' @ [newline])]" ?U 1 0 "''http://google.com''" Done]
  have hyp: "status ?W = Running \<and> 0 \<notin> set (closed ?W) \<and> 0 < (1::nat) \<and>
      1 < length (pool ?W) \<and> 0 < length (pool ?W) \<and> (1::nat) \<noteq> 0 \<and>
      pool ?W ! 1 = checkLink ''http://golang.org'' 0 \<and>
      pool ?W ! 0 = Range 0 (\<lambda>l. Go (func_lit 0 l) Done) Done"
    by (simp add: receive_loop_def)
  have ended: "0 < (1::nat) \<and> 1 < length (pool ?V) \<and> pool ?V ! 1 = Done"
    by simp
  have reached: "run (start main) (replicate 6 (Local 0) @ [Net 1 (None, Some ''timeout''), Local 1]) = Some ([EvMake 0 0, EvGo 0 1, EvGo 0 2, EvGo 0 3, EvGo 0 4, EvGo 0 5,
          EvGet 1 ''http://google.com'' (None, Some ''timeout''),
          EvPrintln 1 (''http://google.com might be down!'' @ [newline])], ?U)"
    by (rule main_first_probe)
  have sending: "0 < (1::nat) \<and> 1 < length (pool ?U) \<and>
      pool ?U ! 1 = Send 0 ''http://google.com'' Done"
    by simp
  from mp [OF conjunct1 [OF conjunct2 [OF conjunct2 [OF inst]]] hyp]
  have one: "run ?W [Net 1 (None, Some ''timeout''), Local 1, Sync 1 0] =
     Some ([EvGet 1 ''http://golang.org'' (None, Some ''timeout''),
            EvPrintln 1 (''http://golang.org might be down!'' @ [newline]),
            EvComm 1 0 0 ''http://golang.org''], ?V)"
    by (simp add: receive_loop_def del: run.simps)
  from mp [OF conjunct1 [OF conjunct2 [OF conjunct2 [OF conjunct2 [OF inst]]]] ended]
  have two: "step ?V (Local 1) = None"
    by (rule conjunct1)
  from mp [OF conjunct2 [OF conjunct2 [OF conjunct2 [OF conjunct2 [OF inst]]]]
      conjI [OF reached sending]]
  have three: "\<exists>m es' u'.
      run ?U (replicate m (Local 0) @ [Sync 1 0]) =
        Some (es' @ [EvComm 1 0 0 ''http://google.com''], u') \<and>
      pool u' ! 1 = Done" .
  from one two reached three show ?thesis
    by (intro conjI)
qed

text \<open>
  C3. \<open>checkLink\<close> reports "might be down!" exactly when \<^verbatim>\<open>http.Get\<close> returned a
  non-nil error, and "is up!" exactly when the error is nil; in particular a response
  with any status code (404 and 500 among them) and a nil error is reported as up.
\<close>

theorem checkLink_down_iff_error:
  "(actions (checkLink link c) (resp, err) =
      Some [AGet link, APrintln (link @ '' might be down!'' @ [newline]), ASend c link])
     = (err \<noteq> None) \<and>
   (actions (checkLink link c) (resp, err) =
      Some [AGet link, APrintln (link @ '' is up!'' @ [newline]), ASend c link])
     = (err = None) \<and>
   actions (checkLink link c) (Some (Response code), None) =
      Some [AGet link, APrintln (link @ '' is up!'' @ [newline]), ASend c link]"
  by (simp add: checkLink_def)

text \<open>
  C4. Between two probes of the same link, the goroutine that makes the second one is
  started by the main goroutine and calls \<^verbatim>\<open>time.Sleep(5 * time.Second)\<close>, in this
  order and both after the first probe has returned: the next check of a link starts
  no sooner than the fixed delay after the previous one completed, \<^verbatim>\<open>time.Sleep\<close>
  pausing for at least the duration it is given. In every state that a run of \<open>main\<close>
  reaches, each of the five links is held by exactly one goroutine and has at most one
  probe or pause pending, never a probe and a pause together and never two of either.
  It need not have one: while the result of a probe is printed, sent to the main
  goroutine, and the function literal is started for it, the link has neither a probe
  nor a pause pending.
\<close>

theorem one_probe_or_pause_per_link:
  "run (start main) ss = Some (es, w) \<longrightarrow>
     (\<forall>l. count_list (probing w) l + count_list (pausing w) l \<le> 1) \<and>
     (\<forall>l \<in> set links. count_list (holders w) l = 1) \<and>
     (\<forall>es1 i l r es2 j r' es3.
        es = es1 @ EvGet i l r # es2 @ EvGet j l r' # es3 \<longrightarrow>
        (\<exists>a b c. es2 = a @ EvGo 0 j # b @ EvSleep j (5 * Second) # c))"
proof (intro impI conjI allI ballI)
  fix l
  assume "run (start main) ss = Some (es, w)"
  then have "distinct (holders w)"
    by (rule main_distinct)
  then show "count_list (probing w) l + count_list (pausing w) l \<le> 1"
    by (rule at_most_one)
next
  fix l
  assume r: "run (start main) ss = Some (es, w)" and l: "l \<in> set links"
  from r have kept: "mset (holders w) = mset links"
    by (rule run_main)
  have "distinct links"
    by (simp add: links_def)
  with l have "count (mset links) l = 1"
    by (simp add: distinct_count_atmost_1)
  with kept show "count_list (holders w) l = 1"
    by (simp flip: count_mset)
next
  fix es1 i l r es2 j r' es3
  assume "run (start main) ss = Some (es, w)"
    and "es = es1 @ EvGet i l r # es2 @ EvGet j l r' # es3"
  then have "run (start main) ss =
      Some (es1 @ EvGet i l r # es2 @ EvGet j l r' # es3, w)"
    by simp
  then show "\<exists>a b c. es2 = a @ EvGo 0 j # b @ EvSleep j (5 * Second) # c"
    by (rule pause_before_next_probe)
qed

theorem one_probe_or_pause_per_link_witness:
  "run (start main)
     (replicate 6 (Local 0) @
      [Net 1 (None, Some ''no such host''), Local 1, Sync 1 0, Local 0, Local 6,
       Net 6 (None, Some ''timeout'')]) =
     Some ([EvMake 0 0, EvGo 0 1, EvGo 0 2, EvGo 0 3, EvGo 0 4, EvGo 0 5] @
           EvGet 1 ''http://google.com'' (None, Some ''no such host'') #
           [EvPrintln 1 (''http://google.com might be down!'' @ [newline]),
            EvComm 1 0 0 ''http://google.com'', EvGo 0 6, EvSleep 6 (5 * Second)] @
           EvGet 6 ''http://google.com'' (None, Some ''timeout'') # [],
           \<lparr>pool = [receive_loop 0, Done, checkLink ''http://facebook.com'' 0,
                    checkLink ''http://stackoverflow.com'' 0,
                    checkLink ''http://golang.org'' 0, checkLink ''http://amazon.com'' 0,
                    Println [''http://google.com'', ''might be down!'']
                      (Send 0 ''http://google.com'' Done)],
            chans = 1, closed = [],
            stdout = ''http://google.com might be down!'' @ [newline],
            status = Running\<rparr>) \<and>
   count_list (holders
     \<lparr>pool = [receive_loop 0, Done, checkLink ''http://facebook.com'' 0,
              checkLink ''http://stackoverflow.com'' 0,
              checkLink ''http://golang.org'' 0, checkLink ''http://amazon.com'' 0,
              Println [''http://google.com'', ''might be down!'']
                (Send 0 ''http://google.com'' Done)],
      chans = 1, closed = [],
      stdout = ''http://google.com might be down!'' @ [newline],
      status = Running\<rparr>) ''http://google.com'' = 1 \<and>
   (\<exists>a b c.
      [EvPrintln 1 (''http://google.com might be down!'' @ [newline]),
       EvComm 1 0 0 ''http://google.com'', EvGo 0 6, EvSleep 6 (5 * Second)] =
      a @ EvGo 0 6 # b @ EvSleep 6 (5 * Second) # c)"
  (is "run _ ?S = Some (?Ea @ ?g # ?T @ ?h # [], ?W) \<and> _ \<and> (\<exists>a b c. _ = ?R a b c)")
proof -
  have hyp: "run (start main) ?S = Some (?Ea @ ?g # ?T @ ?h # [], ?W)"
    using main_second_probe [of "''no such host''" "''timeout''"] by simp
  note concl = mp [OF one_probe_or_pause_per_link [of ?S "?Ea @ ?g # ?T @ ?h # []" ?W] hyp]
  have "''http://google.com'' \<in> set links"
    by (simp add: links_def)
  with conjunct1 [OF conjunct2 [OF concl]]
  have held: "count_list (holders ?W) ''http://google.com'' = 1"
    by (rule bspec)
  note order = spec [OF spec [OF spec [OF spec [OF spec [OF spec [OF spec [OF spec
    [OF conjunct2 [OF conjunct2 [OF concl]]]]]]]]],
    of ?Ea 1 "''http://google.com''" "(None, Some ''no such host'')" ?T 6
      "(None, Some ''timeout'')" "[]"]
  have "?Ea @ ?g # ?T @ ?h # [] = ?Ea @ ?g # ?T @ ?h # []"
    by (rule refl)
  with order have "\<exists>a b c. ?T = ?R a b c"
    by (rule mp)
  with hyp held show ?thesis
    by (intro conjI)
qed

text \<open>
  After the first probe of \<^verbatim>\<open>http://google.com\<close> has returned and its result has been
  printed, the goroutine waits to send the link: the link has no probe and no pause
  pending, so it does not have exactly one of them at that instant.
\<close>

theorem exactly_one_probe_or_pause_counterexample:
  "run (start main) (replicate 6 (Local 0) @ [Net 1 (None, Some ''timeout''), Local 1]) =
     Some ([EvMake 0 0, EvGo 0 1, EvGo 0 2, EvGo 0 3, EvGo 0 4, EvGo 0 5,
            EvGet 1 ''http://google.com'' (None, Some ''timeout''),
            EvPrintln 1 (''http://google.com might be down!'' @ [newline])],
           \<lparr>pool = [receive_loop 0, Send 0 ''http://google.com'' Done,
                    checkLink ''http://facebook.com'' 0,
                    checkLink ''http://stackoverflow.com'' 0,
                    checkLink ''http://golang.org'' 0, checkLink ''http://amazon.com'' 0],
            chans = 1, closed = [],
            stdout = ''http://google.com might be down!'' @ [newline],
            status = Running\<rparr>) \<and>
   ''http://google.com'' \<in> set links \<and>
   count_list (probing
     \<lparr>pool = [receive_loop 0, Send 0 ''http://google.com'' Done,
              checkLink ''http://facebook.com'' 0,
              checkLink ''http://stackoverflow.com'' 0,
              checkLink ''http://golang.org'' 0, checkLink ''http://amazon.com'' 0],
      chans = 1, closed = [],
      stdout = ''http://google.com might be down!'' @ [newline],
      status = Running\<rparr>) ''http://google.com'' +
   count_list (pausing
     \<lparr>pool = [receive_loop 0, Send 0 ''http://google.com'' Done,
              checkLink ''http://facebook.com'' 0,
              checkLink ''http://stackoverflow.com'' 0,
              checkLink ''http://golang.org'' 0, checkLink ''http://amazon.com'' 0],
      chans = 1, closed = [],
      stdout = ''http://google.com might be down!'' @ [newline],
      status = Running\<rparr>) ''http://google.com'' = 0"
  (is "run _ ?S = Some (?E, ?W) \<and> _ \<and> _")
proof -
  have "run (start main) ?S = Some (?E, ?W)"
    by (rule main_first_probe)
  moreover have "''http://google.com'' \<in> set links"
    by (simp add: links_def)
  moreover have "count_list (probing ?W) ''http://google.com'' +
      count_list (pausing ?W) ''http://google.com'' = 0"
    by (simp add: probing_def pausing_def checkLink_def receive_loop_def)
  ultimately show ?thesis
    by (intro conjI)
qed

text \<open>
  C5. In every state that a run of \<open>main\<close> reaches, the program is running, no channel
  is closed and the main goroutine has not returned; no event of the run, and no step
  that can be taken next, closes a channel, ends a range loop, panics or exits.
\<close>

theorem channel_never_closed:
  "run (start main) ss = Some (es, w) \<longrightarrow>
     status w = Running \<and> closed w = [] \<and> pool w \<noteq> [] \<and> pool w ! 0 \<noteq> Done \<and>
     list_all (\<lambda>e. \<not> is_close e \<and> \<not> leaves e) es \<and>
     (\<forall>s e w'. step w s = Some (e, w') \<longrightarrow> \<not> is_close e \<and> \<not> leaves e)"
proof
  assume a: "run (start main) ss = Some (es, w)"
  have good: "\<not> is_close e \<and> \<not> leaves e" if "good_event links e" for e
    using that by (cases e) simp_all
  from a have sh: "shape links w" and ev: "list_all (good_event links) es"
    by (rule run_main)+
  from sh obtain m cs where p: "pool w = m # cs"
    and m: "m = main_with links \<or> main_form links 0 m"
    unfolding shape_def by blast
  from m have "m \<noteq> Done"
    by (auto simp: main_with_def receive_loop_def elim!: main_form_cases)
  moreover from ev have "list_all (\<lambda>e. \<not> is_close e \<and> \<not> leaves e) es"
    by (induction es) (simp_all add: good)
  moreover have "\<not> is_close e \<and> \<not> leaves e" if "step w s = Some (e, w')" for s e w'
    using step_shape [OF sh that] by (simp add: good)
  ultimately show "status w = Running \<and> closed w = [] \<and> pool w \<noteq> [] \<and> pool w ! 0 \<noteq> Done \<and>
     list_all (\<lambda>e. \<not> is_close e \<and> \<not> leaves e) es \<and>
     (\<forall>s e w'. step w s = Some (e, w') \<longrightarrow> \<not> is_close e \<and> \<not> leaves e)"
    using sh p by (simp add: shape_def)
qed

theorem channel_never_closed_witness:
  "run (start main)
     (replicate 6 (Local 0) @
      [Net 1 (None, Some ''no such host''), Local 1, Sync 1 0, Local 0, Local 6]) =
     Some ([EvMake 0 0, EvGo 0 1, EvGo 0 2, EvGo 0 3, EvGo 0 4, EvGo 0 5,
            EvGet 1 ''http://google.com'' (None, Some ''no such host''),
            EvPrintln 1 (''http://google.com might be down!'' @ [newline]),
            EvComm 1 0 0 ''http://google.com'', EvGo 0 6, EvSleep 6 (5 * Second)],
           \<lparr>pool = [receive_loop 0, Done, checkLink ''http://facebook.com'' 0,
                    checkLink ''http://stackoverflow.com'' 0,
                    checkLink ''http://golang.org'' 0, checkLink ''http://amazon.com'' 0,
                    checkLink ''http://google.com'' 0],
            chans = 1, closed = [],
            stdout = ''http://google.com might be down!'' @ [newline],
            status = Running\<rparr>) \<and>
   list_all (\<lambda>e. \<not> is_close e \<and> \<not> leaves e)
     [EvMake 0 0, EvGo 0 1, EvGo 0 2, EvGo 0 3, EvGo 0 4, EvGo 0 5,
      EvGet 1 ''http://google.com'' (None, Some ''no such host''),
      EvPrintln 1 (''http://google.com might be down!'' @ [newline]),
      EvComm 1 0 0 ''http://google.com'', EvGo 0 6, EvSleep 6 (5 * Second)] \<and>
   step
     \<lparr>pool = [receive_loop 0, Done, checkLink ''http://facebook.com'' 0,
              checkLink ''http://stackoverflow.com'' 0,
              checkLink ''http://golang.org'' 0, checkLink ''http://amazon.com'' 0,
              checkLink ''http://google.com'' 0],
      chans = 1, closed = [],
      stdout = ''http://google.com might be down!'' @ [newline],
      status = Running\<rparr>
     (Local 0) = None"
  (is "run _ ?S = Some (?E, ?W) \<and> _ \<and> _")
proof -
  have hyp: "run (start main) ?S = Some (?E, ?W)"
    by (rule main_first_round)
  note inst = channel_never_closed [of ?S ?E ?W]
  from mp [OF inst hyp]
  have "list_all (\<lambda>e. \<not> is_close e \<and> \<not> leaves e) ?E"
    by (elim conjE)
  moreover have "step ?W (Local 0) = None"
    by (simp add: receive_loop_def)
  ultimately show ?thesis
    using hyp by (intro conjI)
qed

text \<open>
  C6. From any state in which the main goroutine waits in its loop and a goroutine is
  about to probe a link, the round "probe returns, print, hand over, relaunch, pause"
  goes through for every result of the probe and ends with a fresh goroutine at the start
  of \<open>checkLink\<close> for that link; apart from the probe event and the printed line, a
  round with an error and a round without one give the same events and the same
  goroutines. In every run of \<open>main\<close>, whatever the probes return, the program keeps
  running and every configured link stays held by some goroutine.
\<close>

theorem relaunch_is_outcome_blind:
  "(status w = Running \<and> c \<notin> set (closed w) \<and> pool w ! 0 = receive_loop c \<and>
    0 < i \<and> i < length (pool w) \<and> pool w ! i = checkLink link c \<longrightarrow>
      run w [Net i (resp, err), Local i, Sync i 0, Local 0, Local (length (pool w))] =
        Some ([EvGet i link (resp, err),
               EvPrintln i (link @ (if err = None then '' is up!'' else '' might be down!'') @
                 [newline]),
               EvComm i 0 c link, EvGo 0 (length (pool w)),
               EvSleep (length (pool w)) (5 * Second)],
              w\<lparr>pool := (pool w)[i := Done] @ [checkLink link c],
                 stdout := stdout w @ link @
                   (if err = None then '' is up!'' else '' might be down!'') @ [newline]\<rparr>) \<and>
      map_option (\<lambda>(es, w'). (drop 2 es, pool w', chans w', closed w', status w'))
        (run w [Net i (resp, Some e), Local i, Sync i 0, Local 0, Local (length (pool w))]) =
      map_option (\<lambda>(es, w'). (drop 2 es, pool w', chans w', closed w', status w'))
        (run w [Net i (resp', None), Local i, Sync i 0, Local 0, Local (length (pool w))])) \<and>
   (run (start main) ss = Some (es, v) \<longrightarrow> status v = Running \<and> set (holders v) = set links)"
proof (intro conjI impI)
  assume "status w = Running \<and> c \<notin> set (closed w) \<and> pool w ! 0 = receive_loop c \<and>
    0 < i \<and> i < length (pool w) \<and> pool w ! i = checkLink link c"
  then have a: "status w = Running" "c \<notin> set (closed w)" "pool w ! 0 = receive_loop c"
    "0 < i" "i < length (pool w)" "pool w ! i = checkLink link c"
    by simp_all
  show "run w [Net i (resp, err), Local i, Sync i 0, Local 0, Local (length (pool w))] =
        Some ([EvGet i link (resp, err),
               EvPrintln i (link @ (if err = None then '' is up!'' else '' might be down!'') @
                 [newline]),
               EvComm i 0 c link, EvGo 0 (length (pool w)),
               EvSleep (length (pool w)) (5 * Second)],
              w\<lparr>pool := (pool w)[i := Done] @ [checkLink link c],
                 stdout := stdout w @ link @
                   (if err = None then '' is up!'' else '' might be down!'') @ [newline]\<rparr>)"
    by (rule check_round [OF a])
  show "map_option (\<lambda>(es, w'). (drop 2 es, pool w', chans w', closed w', status w'))
        (run w [Net i (resp, Some e), Local i, Sync i 0, Local 0, Local (length (pool w))]) =
      map_option (\<lambda>(es, w'). (drop 2 es, pool w', chans w', closed w', status w'))
        (run w [Net i (resp', None), Local i, Sync i 0, Local 0, Local (length (pool w))])"
    unfolding check_round [OF a] by simp
next
  assume r: "run (start main) ss = Some (es, v)"
  then have "shape links v"
    by (rule run_main)
  then show "status v = Running"
    by (simp add: shape_def)
  from r have "mset (holders v) = mset links"
    by (rule run_main)
  then show "set (holders v) = set links"
    by (rule mset_eq_setD)
qed

theorem relaunch_is_outcome_blind_witness:
  "run \<lparr>pool = [receive_loop 0, checkLink ''http://stackoverflow.com'' 0,
               checkLink ''http://golang.org'' 0],
        chans = 1, closed = [], stdout = [], status = Running\<rparr>
     [Net 1 (None, Some ''connection refused''), Local 1, Sync 1 0, Local 0, Local 3] =
     Some ([EvGet 1 ''http://stackoverflow.com'' (None, Some ''connection refused''),
            EvPrintln 1 (''http://stackoverflow.com might be down!'' @ [newline]),
            EvComm 1 0 0 ''http://stackoverflow.com'', EvGo 0 3, EvSleep 3 (5 * Second)],
           \<lparr>pool = [receive_loop 0, Done, checkLink ''http://golang.org'' 0,
                    checkLink ''http://stackoverflow.com'' 0],
            chans = 1, closed = [],
            stdout = ''http://stackoverflow.com might be down!'' @ [newline],
            status = Running\<rparr>) \<and>
   run (start main)
     (replicate 6 (Local 0) @
      [Net 1 (None, Some ''no such host''), Local 1, Sync 1 0, Local 0, Local 6]) =
     Some ([EvMake 0 0, EvGo 0 1, EvGo 0 2, EvGo 0 3, EvGo 0 4, EvGo 0 5,
            EvGet 1 ''http://google.com'' (None, Some ''no such host''),
            EvPrintln 1 (''http://google.com might be down!'' @ [newline]),
            EvComm 1 0 0 ''http://google.com'', EvGo 0 6, EvSleep 6 (5 * Second)],
           \<lparr>pool = [receive_loop 0, Done, checkLink ''http://facebook.com'' 0,
                    checkLink ''http://stackoverflow.com'' 0,
                    checkLink ''http://golang.org'' 0, checkLink ''http://amazon.com'' 0,
                    checkLink ''http://google.com'' 0],
            chans = 1, closed = [],
            stdout = ''http://google.com might be down!'' @ [newline],
            status = Running\<rparr>) \<and>
   set (holders
     \<lparr>pool = [receive_loop 0, Done, checkLink ''http://facebook.com'' 0,
              checkLink ''http://stackoverflow.com'' 0,
              checkLink ''http://golang.org'' 0, checkLink ''http://amazon.com'' 0,
              checkLink ''http://google.com'' 0],
      chans = 1, closed = [],
      stdout = ''http://google.com might be down!'' @ [newline],
      status = Running\<rparr>) = set links"
  (is "run ?Wa ?Sa = Some (?Ea, ?Wb) \<and> run _ ?S = Some (?E, ?W) \<and> _")
proof -
  note inst = relaunch_is_outcome_blind
    [of ?Wa 0 1 "''http://stackoverflow.com''" None "Some ''connection refused''"
      "''connection refused''" None ?S ?E ?W]
  have hyp1: "status ?Wa = Running \<and> 0 \<notin> set (closed ?Wa) \<and> pool ?Wa ! 0 = receive_loop 0 \<and>
      0 < (1::nat) \<and> 1 < length (pool ?Wa) \<and>
      pool ?Wa ! 1 = checkLink ''http://stackoverflow.com'' 0"
    by simp
  have hyp2: "run (start main) ?S = Some (?E, ?W)"
    by (rule main_first_round)
  from conjunct1 [OF mp [OF conjunct1 [OF inst] hyp1]]
  have first: "run ?Wa ?Sa = Some (?Ea, ?Wb)"
    by (simp add: eval_nat_numeral del: run.simps step.simps)
  from conjunct2 [OF mp [OF conjunct2 [OF inst] hyp2]]
  have "set (holders ?W) = set links" .
  with first hyp2 show ?thesis
    by (intro conjI)
qed

text \<open>
  C7. With no links, \<open>main\<close> allocates the channel and can do nothing more: every run
  is empty or that one step, no goroutine is started, no probe is made, nothing is
  printed, and the program neither returns nor panics. In the state after the
  allocation no goroutine can take a step, so all goroutines are asleep. What the
  process then does is decided by the runtime: where its deadlock check is in force
  the process is ended with \<^verbatim>\<open>fatal error: all goroutines are asleep - deadlock!\<close>,
  and only where it is not does the process wait forever without a report.
\<close>

theorem no_links_no_progress:
  "(run (start (main_with [])) ss = Some (es, w) \<longrightarrow>
      (ss = [] \<or> ss = [Local 0]) \<and> (\<forall>i url r. EvGet i url r \<notin> set es) \<and>
      stdout w = [] \<and> status w = Running \<and> length (pool w) = 1) \<and>
   run (start (main_with [])) [Local 0] =
     Some ([EvMake 0 0],
           \<lparr>pool = [receive_loop 0], chans = 1, closed = [], stdout = [],
            status = Running\<rparr>) \<and>
   (\<forall>s. step \<lparr>pool = [receive_loop 0], chans = 1, closed = [], stdout = [],
               status = Running\<rparr> s = None) \<and>
   all_asleep \<lparr>pool = [receive_loop 0], chans = 1, closed = [], stdout = [],
               status = Running\<rparr> \<and>
   deadlock_report detector
     \<lparr>pool = [receive_loop 0], chans = 1, closed = [], stdout = [], status = Running\<rparr> =
     (if detector then Some ''fatal error: all goroutines are asleep - deadlock!'' else None)"
proof -
  let ?W = "\<lparr>pool = [receive_loop 0], chans = 1, closed = [], stdout = [],
    status = Running\<rparr>"
  have runs: "(ss = [] \<or> ss = [Local 0]) \<and> (\<forall>i url r. EvGet i url r \<notin> set es) \<and>
      stdout w = [] \<and> status w = Running \<and> length (pool w) = 1"
    if "run (start (main_with [])) ss = Some (es, w)"
    using no_links_runs [OF that] by (auto simp: start_def)
  have made: "run (start (main_with [])) [Local 0] = Some ([EvMake 0 0], ?W)"
    by (simp add: start_def main_with_def)
  have stuck: "\<forall>s. step ?W s = None"
    by (simp add: waiting_alone_stuck)
  have asleep: "all_asleep ?W"
    by (rule asleep_example)
  then have report: "deadlock_report detector ?W =
      (if detector then Some ''fatal error: all goroutines are asleep - deadlock!'' else None)"
    unfolding deadlock_report_def by simp
  from runs have "run (start (main_with [])) ss = Some (es, w) \<longrightarrow>
      (ss = [] \<or> ss = [Local 0]) \<and> (\<forall>i url r. EvGet i url r \<notin> set es) \<and>
      stdout w = [] \<and> status w = Running \<and> length (pool w) = 1"
    by (rule impI)
  with made stuck asleep report show ?thesis
    by (intro conjI)
qed

theorem no_links_no_progress_witness:
  "run (start (main_with [])) [Local 0] =
     Some ([EvMake 0 0],
           \<lparr>pool = [receive_loop 0], chans = 1, closed = [], stdout = [],
            status = Running\<rparr>) \<and>
   EvGet 1 ''http://google.com'' (None, None) \<notin> set [EvMake 0 0] \<and>
   stdout \<lparr>pool = [receive_loop 0], chans = 1, closed = [], stdout = [],
           status = Running\<rparr> = [] \<and>
   status \<lparr>pool = [receive_loop 0], chans = 1, closed = [], stdout = [],
           status = Running\<rparr> = Running \<and>
   deadlock_report False
     \<lparr>pool = [receive_loop 0], chans = 1, closed = [], stdout = [], status = Running\<rparr> =
     None"
  (is "run _ ?S = Some (?E, ?W) \<and> _ \<and> _ \<and> _ \<and> _")
proof -
  note inst = no_links_no_progress [of ?S ?E ?W False]
  have hyp: "run (start (main_with [])) ?S = Some (?E, ?W)"
    by (rule conjunct1 [OF conjunct2 [OF inst]])
  note concl = mp [OF conjunct1 [OF inst] hyp]
  have "EvGet 1 ''http://google.com'' (None, None) \<notin> set ?E"
    by (rule spec [OF spec [OF spec [OF conjunct1 [OF conjunct2 [OF concl]]]]])
  moreover have "stdout ?W = []"
    by (rule conjunct1 [OF conjunct2 [OF conjunct2 [OF concl]]])
  moreover have "status ?W = Running"
    by (rule conjunct1 [OF conjunct2 [OF conjunct2 [OF conjunct2 [OF concl]]]])
  moreover have "deadlock_report False ?W = None"
    using conjunct2 [OF conjunct2 [OF conjunct2 [OF conjunct2 [OF inst]]]] by simp
  ultimately show ?thesis
    using hyp by (intro conjI)
qed

text \<open>
  With the deadlock check in force, the program with no links ends with the
  runtime's report instead of waiting without one.
\<close>

theorem no_deadlock_report_counterexample:
  "run (start (main_with [])) [Local 0] =
     Some ([EvMake 0 0],
           \<lparr>pool = [receive_loop 0], chans = 1, closed = [], stdout = [],
            status = Running\<rparr>) \<and>
   deadlock_report True
     \<lparr>pool = [receive_loop 0], chans = 1, closed = [], stdout = [], status = Running\<rparr> =
     Some ''fatal error: all goroutines are asleep - deadlock!''"
proof (rule conjI)
  show "run (start (main_with [])) [Local 0] =
     Some ([EvMake 0 0],
           \<lparr>pool = [receive_loop 0], chans = 1, closed = [], stdout = [],
            status = Running\<rparr>)"
    by (simp add: start_def main_with_def)
  show "deadlock_report True
     \<lparr>pool = [receive_loop 0], chans = 1, closed = [], stdout = [], status = Running\<rparr> =
     Some ''fatal error: all goroutines are asleep - deadlock!''"
    using asleep_example unfolding deadlock_report_def by simp
qed

text \<open>
  C8. A call of \<open>checkLink\<close> prints exactly once: the link, a space, \<^verbatim>\<open>is up!\<close> when the
  error is nil and \<^verbatim>\<open>might be down!\<close> otherwise, and a newline; that text is what is
  appended to standard output. For each of the configured links either text is one
  line (a single newline, at its end).
\<close>

theorem checkLink_prints_one_line:
  "map_option (filter is_println) (actions (checkLink link c) (resp, err)) =
     Some [APrintln (link @ (if err = None then '' is up!'' else '' might be down!'') @
             [newline])] \<and>
   (status w = Running \<and> i < length (pool w) \<and> pool w ! i = checkLink link c \<longrightarrow>
    run w [Net i (resp, err), Local i] =
      Some ([EvGet i link (resp, err),
             EvPrintln i (link @ (if err = None then '' is up!'' else '' might be down!'') @
               [newline])],
            w\<lparr>pool := (pool w)[i := Send c link Done],
               stdout := stdout w @ link @
                 (if err = None then '' is up!'' else '' might be down!'') @ [newline]\<rparr>)) \<and>
   list_all (\<lambda>l. count_list (l @ '' is up!'' @ [newline]) newline = 1 \<and>
                  count_list (l @ '' might be down!'' @ [newline]) newline = 1) links"
  by (simp add: checkLink_def links_def newline_def)

theorem checkLink_prints_one_line_witness:
  "run \<lparr>pool = [receive_loop 0, checkLink ''http://amazon.com'' 0], chans = 1, closed = [],
        stdout = [], status = Running\<rparr>
     [Net 1 (Some (Response 503), None), Local 1] =
     Some ([EvGet 1 ''http://amazon.com'' (Some (Response 503), None),
            EvPrintln 1 (''http://amazon.com is up!'' @ [newline])],
           \<lparr>pool = [receive_loop 0, Send 0 ''http://amazon.com'' Done], chans = 1,
            closed = [], stdout = ''http://amazon.com is up!'' @ [newline],
            status = Running\<rparr>)"
proof -
  let ?W = "\<lparr>pool = [receive_loop 0, checkLink ''http://amazon.com'' 0], chans = 1,
             closed = [], stdout = [], status = Running\<rparr>"
  note inst = checkLink_prints_one_line
      [of "''http://amazon.com''" 0 "Some (Response 503)" None ?W 1]
  have hyp: "status ?W = Running \<and> 1 < length (pool ?W) \<and>
      pool ?W ! 1 = checkLink ''http://amazon.com'' 0"
    by simp
  from mp [OF conjunct1 [OF conjunct2 [OF inst]] hyp] show ?thesis
    by (simp del: run.simps)
qed

text \<open>
  C9. The pause of a relaunch is \<open>5 * time.Second\<close>, that is 5,000,000,000 nanoseconds
  (the product does not wrap in \<^verbatim>\<open>int64\<close>): the function literal pauses for it first and
  then does what \<open>checkLink\<close> does, and every pause in every run of \<open>main\<close> is of that
  length.
\<close>

theorem relaunch_pauses_five_seconds:
  "actions (func_lit c link) r =
     map_option ((#) (ASleep (5 * Second))) (actions (checkLink link c) r) \<and>
   sint (5 * Second) = 5 * 1000 * 1000 * 1000 \<and>
   (run (start main) ss = Some (es, w) \<and> EvSleep i d \<in> set es \<longrightarrow>
      d = 5 * Second \<and> sint d = 5000000000)"
proof (intro conjI impI)
  show "actions (func_lit c link) r =
     map_option ((#) (ASleep (5 * Second))) (actions (checkLink link c) r)"
    by (simp add: func_lit_def)
  show five: "sint (5 * Second) = 5 * 1000 * 1000 * 1000"
    by (simp add: Second_def Millisecond_def Microsecond_def Nanosecond_def)
  assume a: "run (start main) ss = Some (es, w) \<and> EvSleep i d \<in> set es"
  then have "run (start main) ss = Some (es, w)"
    by simp
  then have "list_all (good_event links) es"
    by (rule run_main)
  with a show d: "d = 5 * Second"
    by (auto dest: good_event_pause)
  from five show "sint d = 5000000000"
    unfolding d by simp
qed

theorem relaunch_pauses_five_seconds_witness:
  "run (start main)
     (replicate 6 (Local 0) @
      [Net 1 (None, Some ''no such host''), Local 1, Sync 1 0, Local 0, Local 6]) =
     Some ([EvMake 0 0, EvGo 0 1, EvGo 0 2, EvGo 0 3, EvGo 0 4, EvGo 0 5,
            EvGet 1 ''http://google.com'' (None, Some ''no such host''),
            EvPrintln 1 (''http://google.com might be down!'' @ [newline]),
            EvComm 1 0 0 ''http://google.com'', EvGo 0 6, EvSleep 6 (5 * Second)],
           \<lparr>pool = [receive_loop 0, Done, checkLink ''http://facebook.com'' 0,
                    checkLink ''http://stackoverflow.com'' 0,
                    checkLink ''http://golang.org'' 0, checkLink ''http://amazon.com'' 0,
                    checkLink ''http://google.com'' 0],
            chans = 1, closed = [],
            stdout = ''http://google.com might be down!'' @ [newline],
            status = Running\<rparr>) \<and>
   EvSleep 6 (5 * Second) \<in> set
     [EvMake 0 0, EvGo 0 1, EvGo 0 2, EvGo 0 3, EvGo 0 4, EvGo 0 5,
      EvGet 1 ''http://google.com'' (None, Some ''no such host''),
      EvPrintln 1 (''http://google.com might be down!'' @ [newline]),
      EvComm 1 0 0 ''http://google.com'', EvGo 0 6, EvSleep 6 (5 * Second)] \<and>
   sint (5 * Second) = 5000000000"
  (is "run _ ?S = Some (?E, ?W) \<and> _ \<and> _")
proof -
  have hyp: "run (start main) ?S = Some (?E, ?W) \<and> EvSleep 6 (5 * Second) \<in> set ?E"
    using main_first_round [of "''no such host''"] by (intro conjI) simp_all
  note inst = relaunch_pauses_five_seconds
    [of 0 "''http://google.com''" "(None, None)" ?S ?E ?W 6 "5 * Second"]
  from mp [OF conjunct2 [OF conjunct2 [OF inst]] hyp] hyp show ?thesis
    by (intro conjI) (erule conjunct1 conjunct2)+
qed

text \<open>
  C10. \<open>links\<close> is the five URLs of the source, in order and without repetition. In
  every run of \<open>main\<close> every probe and every value sent over the channel is one of them,
  and in every state reached the links held by the goroutines are exactly the configured
  ones, each held once: none is added, dropped or duplicated.
\<close>

theorem targets_are_the_five_links:
  "links = [''http://google.com'', ''http://facebook.com'', ''http://stackoverflow.com'',
            ''http://golang.org'', ''http://amazon.com''] \<and>
   distinct links \<and>
   (run (start main) ss = Some (es, w) \<longrightarrow>
      (\<forall>i url r. EvGet i url r \<in> set es \<longrightarrow> url \<in> set links) \<and>
      (\<forall>i j c v. EvComm i j c v \<in> set es \<longrightarrow> v \<in> set links) \<and>
      mset (holders w) = mset links \<and> distinct (holders w))"
proof (intro conjI impI allI)
  show "links = [''http://google.com'', ''http://facebook.com'', ''http://stackoverflow.com'',
            ''http://golang.org'', ''http://amazon.com'']"
    by (rule links_def)
  show "distinct links"
    by (simp add: links_def)
next
  fix i url r
  assume "run (start main) ss = Some (es, w)" and mem: "EvGet i url r \<in> set es"
  then have "list_all (good_event links) es"
    by (intro run_main)
  from this mem have "good_event links (EvGet i url r)"
    by (rule list_all_mem)
  then show "url \<in> set links" by simp
next
  fix i j c v
  assume "run (start main) ss = Some (es, w)" and mem: "EvComm i j c v \<in> set es"
  then have "list_all (good_event links) es"
    by (intro run_main)
  from this mem have "good_event links (EvComm i j c v)"
    by (rule list_all_mem)
  then show "v \<in> set links" by simp
next
  assume "run (start main) ss = Some (es, w)"
  then show kept: "mset (holders w) = mset links"
    by (rule run_main)
  show "distinct (holders w)"
    unfolding mset_eq_imp_distinct_iff [OF kept] by (simp add: links_def)
qed

theorem targets_are_the_five_links_witness:
  "run (start main)
     (replicate 6 (Local 0) @
      [Net 1 (None, Some ''no such host''), Local 1, Sync 1 0, Local 0, Local 6]) =
     Some ([EvMake 0 0, EvGo 0 1, EvGo 0 2, EvGo 0 3, EvGo 0 4, EvGo 0 5,
            EvGet 1 ''http://google.com'' (None, Some ''no such host''),
            EvPrintln 1 (''http://google.com might be down!'' @ [newline]),
            EvComm 1 0 0 ''http://google.com'', EvGo 0 6, EvSleep 6 (5 * Second)],
           \<lparr>pool = [receive_loop 0, Done, checkLink ''http://facebook.com'' 0,
                    checkLink ''http://stackoverflow.com'' 0,
                    checkLink ''http://golang.org'' 0, checkLink ''http://amazon.com'' 0,
                    checkLink ''http://google.com'' 0],
            chans = 1, closed = [],
            stdout = ''http://google.com might be down!'' @ [newline],
            status = Running\<rparr>) \<and>
   ''http://google.com'' \<in> set links \<and>
   mset (holders
     \<lparr>pool = [receive_loop 0, Done, checkLink ''http://facebook.com'' 0,
              checkLink ''http://stackoverflow.com'' 0,
              checkLink ''http://golang.org'' 0, checkLink ''http://amazon.com'' 0,
              checkLink ''http://google.com'' 0],
      chans = 1, closed = [],
      stdout = ''http://google.com might be down!'' @ [newline],
      status = Running\<rparr>) = mset links"
  (is "run _ ?S = Some (?E, ?W) \<and> _ \<and> _")
proof -
  have hyp: "run (start main) ?S = Some (?E, ?W)"
    by (rule main_first_round)
  note inst = targets_are_the_five_links [of ?S ?E ?W]
  note concl = mp [OF conjunct2 [OF conjunct2 [OF inst]] hyp]
  note probe = spec [OF spec [OF spec [OF conjunct1 [OF concl]]], of 1 "''http://google.com''"
      "(None, Some ''no such host'')"]
  have kept: "mset (holders ?W) = mset links"
    by (rule conjunct1 [OF conjunct2 [OF conjunct2 [OF concl]]])
  have "EvGet 1 ''http://google.com'' (None, Some ''no such host'') \<in> set ?E"
    by simp
  with probe have "''http://google.com'' \<in> set links"
    by (rule mp)
  with hyp kept show ?thesis
    by (intro conjI)
qed

end
